theory Spec2Isabelle
  imports Main
begin

section \<open>Python strings and integers\<close>

text \<open>
  A Python \<open>str\<close> is a sequence of Unicode code points, and \<open>len\<close>, slicing and the
  \<open>re\<close> module all count code points. A text is therefore a list of code points, each a
  natural number; \<open>str\<close> turns an Isabelle string literal into such a list.
\<close>

type_synonym pystr = "nat list"

definition str :: "string \<Rightarrow> pystr" where
  "str s = map of_char s"

text \<open>The characters the pattern and the replacement name: newline, double quote, dot.\<close>

definition NL :: nat where "NL = 10"
definition QUOTE :: nat where "QUOTE = 34"
definition DOT :: nat where "DOT = 46"

text \<open>
  \<open>\s\<close> in a \<open>str\<close> pattern is Unicode whitespace: the characters for which CPython's
  \<open>Py_UNICODE_ISSPACE\<close> holds. \<open>[0-9]\<close> is an explicit class: the ten ASCII digits only.
\<close>

definition is_space :: "nat \<Rightarrow> bool" where
  "is_space c \<longleftrightarrow>
     (9 \<le> c \<and> c \<le> 13) \<or> (28 \<le> c \<and> c \<le> 32) \<or> c = 133 \<or> c = 160 \<or> c = 5760 \<or>
     (8192 \<le> c \<and> c \<le> 8202) \<or> c = 8232 \<or> c = 8233 \<or> c = 8239 \<or> c = 8287 \<or> c = 12288"

definition is_digit :: "nat \<Rightarrow> bool" where
  "is_digit c \<longleftrightarrow> 48 \<le> c \<and> c \<le> 57"

datatype error = RuntimeError pystr | ValueError | FileNotFoundError

text \<open>
  The interpreter limits the conversions between \<open>int\<close> and decimal strings: a string
  of more than \<open>sys.int_info.default_max_str_digits = 4300\<close> digits is refused by
  \<open>int\<close>, and an integer whose decimal form has more digits than that is refused by
  \<open>str\<close> and by string formatting, both with \<open>ValueError\<close>. The script leaves the limit at
  its default.
\<close>

definition max_str_digits :: nat where
  "max_str_digits = 4300"

text \<open>
  \<open>int(s)\<close> on a non-empty string of ASCII digits within the limit is its decimal value,
  an unbounded integer; leading zeros count as digits. Every other argument is answered
  with \<open>ValueError\<close> here: \<open>int\<close> accepts a few more forms (a sign, surrounding blanks,
  underscores), none of which the pattern lets through, and refusing them only makes the
  error branch of the model larger.
\<close>

definition decimal :: "pystr \<Rightarrow> nat" where
  "decimal s = foldl (\<lambda>a c. 10 * a + (c - 48)) 0 s"

definition int_of_str :: "pystr \<Rightarrow> error + int" where
  "int_of_str s =
     (if s \<noteq> [] \<and> list_all is_digit s \<and> length s \<le> max_str_digits
      then Inr (int (decimal s)) else Inl ValueError)"

text \<open>
  The decimal form of an integer: digits, most significant first, \<open>-\<close> before a negative;
  \<open>ndigits\<close> is the number of its digits. \<open>f"{n}"\<close> for an integer is that form when it is
  within the limit, and \<open>ValueError\<close> otherwise.
\<close>

fun dec :: "nat \<Rightarrow> pystr" where
  "dec n = (if n < 10 then [48 + n] else dec (n div 10) @ [48 + n mod 10])"

declare dec.simps [simp del]

definition dec_int :: "int \<Rightarrow> pystr" where
  "dec_int i = (if i < 0 then 45 # dec (nat (- i)) else dec (nat i))"

definition ndigits :: "int \<Rightarrow> nat" where
  "ndigits i = length (dec (nat \<bar>i\<bar>))"

definition str_of_int :: "int \<Rightarrow> error + pystr" where
  "str_of_int i = (if ndigits i \<le> max_str_digits then Inr (dec_int i) else Inl ValueError)"

section \<open>The version pattern\<close>

text \<open>
  The pieces of a regular expression, each taking the text at the current position and
  returning what it consumed and what is left: a literal, a greedy \<open>*\<close> and a greedy \<open>+\<close>
  over a character class, and sequencing. The greedy loops take the longest run and never
  give characters back. For this pattern that is all a backtracking engine can do too,
  because the character after each loop (\<open>=\<close>, \<open>"\<close>, \<open>.\<close>) is outside the loop's class;
  \<open>match_at_intro\<close> and \<open>match_at_elim\<close> below state it without reference to any strategy.
\<close>

type_synonym 'a parser = "pystr \<Rightarrow> ('a \<times> pystr) option"

definition lit :: "pystr \<Rightarrow> pystr parser" where
  "lit l s = (if take (length l) s = l then Some (l, drop (length l) s) else None)"

definition star :: "(nat \<Rightarrow> bool) \<Rightarrow> pystr parser" where
  "star P s = Some (takeWhile P s, dropWhile P s)"

definition plus1 :: "(nat \<Rightarrow> bool) \<Rightarrow> pystr parser" where
  "plus1 P s = (if takeWhile P s = [] then None else Some (takeWhile P s, dropWhile P s))"

definition seq :: "pystr parser \<Rightarrow> pystr parser \<Rightarrow> pystr parser" where
  "seq p q s =
     (case p s of None \<Rightarrow> None
      | Some (u, r) \<Rightarrow> (case q r of None \<Rightarrow> None | Some (v, r') \<Rightarrow> Some (u @ v, r')))"

text \<open>Group 1 of \<open>pattern\<close> and the head of \<open>ver_search\<close>'s pattern: \<open>version\s*=\s*\"\<close>.\<close>

definition head :: "pystr parser" where
  "head = seq (lit (str ''version'')) (seq (star is_space) (seq (lit (str ''=''))
            (seq (star is_space) (lit [QUOTE]))))"

text \<open>
  A match of \<open>pattern\<close>, by its five groups; group 0, the whole match, is their
  concatenation with the two dots.
\<close>

record rmatch =
  g1 :: pystr
  g2 :: pystr
  g3 :: pystr
  g4 :: pystr
  g5 :: pystr

definition g0 :: "rmatch \<Rightarrow> pystr" where
  "g0 m = g1 m @ g2 m @ [DOT] @ g3 m @ [DOT] @ g4 m @ g5 m"

text \<open>
  \<open>(version\s*=\s*\")([0-9]+)\.([0-9]+)\.([0-9]+)(\")\<close> tried at the start of \<open>s\<close>:
  the groups and the text after the match.
\<close>

definition match_at :: "pystr \<Rightarrow> (rmatch \<times> pystr) option" where
  "match_at s =
     (case head s of None \<Rightarrow> None | Some (h, r1) \<Rightarrow>
      (case plus1 is_digit r1 of None \<Rightarrow> None | Some (a, r2) \<Rightarrow>
      (case lit [DOT] r2 of None \<Rightarrow> None | Some (_, r3) \<Rightarrow>
      (case plus1 is_digit r3 of None \<Rightarrow> None | Some (b, r4) \<Rightarrow>
      (case lit [DOT] r4 of None \<Rightarrow> None | Some (_, r5) \<Rightarrow>
      (case plus1 is_digit r5 of None \<Rightarrow> None | Some (c, r6) \<Rightarrow>
      (case lit [QUOTE] r6 of None \<Rightarrow> None | Some (q, rest) \<Rightarrow>
         Some (\<lparr>g1 = h, g2 = a, g3 = b, g4 = c, g5 = q\<rparr>, rest))))))))"

text \<open>
  \<open>version\s*=\s*\"([0-9]+\.[0-9]+\.[0-9]+)\"\<close>, the pattern of \<open>ver_search\<close>: its one
  group and the text after the match.
\<close>

definition ver_at :: "pystr \<Rightarrow> (pystr \<times> pystr) option" where
  "ver_at s =
     (case head s of None \<Rightarrow> None | Some (_, r1) \<Rightarrow>
      (case seq (plus1 is_digit) (seq (lit [DOT]) (seq (plus1 is_digit)
               (seq (lit [DOT]) (plus1 is_digit)))) r1 of None \<Rightarrow> None | Some (v, r2) \<Rightarrow>
      (case lit [QUOTE] r2 of None \<Rightarrow> None | Some (_, rest) \<Rightarrow> Some (v, rest))))"

text \<open>
  \<open>search\<close> for a pattern that starts with \<open>^\<close> under \<open>re.MULTILINE\<close>: the positions are
  tried from left to right, and \<open>^\<close> holds at the start of the text and right after each
  newline. \<open>bol\<close> says whether the current position is such a place. The result is the
  text before the match and the matcher's result there.
\<close>

fun re_search :: "(pystr \<Rightarrow> 'a option) \<Rightarrow> bool \<Rightarrow> pystr \<Rightarrow> (pystr \<times> 'a) option" where
  "re_search p bol [] =
     (case (if bol then p [] else None) of
        Some r \<Rightarrow> Some ([], r)
      | None \<Rightarrow> None)"
| "re_search p bol (c # cs) =
     (case (if bol then p (c # cs) else None) of
        Some r \<Rightarrow> Some ([], r)
      | None \<Rightarrow> map_option (\<lambda>(pre, r). (c # pre, r)) (re_search p (c = NL) cs))"

section \<open>bump_version\<close>

text \<open>
  The nested function \<open>repl\<close>, with the \<open>part\<close> it closes over as a parameter. Its
  \<open>if\<close>/\<open>elif\<close>/\<open>else\<close> on the three numbers is \<open>increment\<close>. The three calls of
  \<open>int\<close> and the three conversions in the formatted string are made in this order, and
  the first that raises ends \<open>repl\<close>.
\<close>

definition increment :: "pystr \<Rightarrow> int \<times> int \<times> int \<Rightarrow> int \<times> int \<times> int" where
  "increment part v =
     (case v of (major, minor, patch) \<Rightarrow>
        if part = str ''major'' then (major + 1, 0, 0)
        else if part = str ''minor'' then (major, minor + 1, 0)
        else (major, minor, patch + 1))"

definition repl :: "pystr \<Rightarrow> rmatch \<Rightarrow> error + pystr" where
  "repl part m =
     (case int_of_str (g2 m) of Inl e \<Rightarrow> Inl e | Inr major \<Rightarrow>
      (case int_of_str (g3 m) of Inl e \<Rightarrow> Inl e | Inr minor \<Rightarrow>
      (case int_of_str (g4 m) of Inl e \<Rightarrow> Inl e | Inr patch \<Rightarrow>
         (case increment part (major, minor, patch) of (major, minor, patch) \<Rightarrow>
            (case str_of_int major of Inl e \<Rightarrow> Inl e | Inr a \<Rightarrow>
            (case str_of_int minor of Inl e \<Rightarrow> Inl e | Inr b \<Rightarrow>
            (case str_of_int patch of Inl e \<Rightarrow> Inl e | Inr c \<Rightarrow>
               Inr (g1 m @ a @ [DOT] @ b @ [DOT] @ c @ g5 m))))))))"

text \<open>
  \<open>pattern.subn(repl, text, count=1)\<close>: the first match, if there is one, is replaced by
  what \<open>repl\<close> returns for it; the result is the new text and the number of replacements.
  An exception in \<open>repl\<close> leaves \<open>subn\<close>.
\<close>

definition subn1 :: "(rmatch \<Rightarrow> error + pystr) \<Rightarrow> pystr \<Rightarrow> error + (pystr \<times> nat)" where
  "subn1 f text =
     (case re_search match_at True text of
        None \<Rightarrow> Inr (text, 0)
      | Some (pre, m, rest) \<Rightarrow>
          (case f m of Inl e \<Rightarrow> Inl e | Inr r \<Rightarrow> Inr (pre @ r @ rest, 1)))"

definition not_found :: pystr where
  "not_found = str ''Could not find version = '' @ [QUOTE] @ str ''x.y.z'' @ [QUOTE] @
               str '' in pyproject.toml''"

text \<open>
  \<open>bump_version(text, part)\<close>. The unused \<open>m2 = pattern.search(new_text)\<close> has no effect
  and is left out.
\<close>

definition bump_version :: "pystr \<Rightarrow> pystr \<Rightarrow> error + (pystr \<times> pystr)" where
  "bump_version text part =
     (case subn1 (repl part) text of
        Inl e \<Rightarrow> Inl e
      | Inr (new_text, n) \<Rightarrow>
          if n = 0 then Inl (RuntimeError not_found)
          else
            (let ver_search = re_search ver_at True new_text;
                 new_version = (case ver_search of Some (_, v, _) \<Rightarrow> v | None \<Rightarrow> str ''unknown'')
             in Inr (new_text, new_version)))"

section \<open>The first step of main\<close>

text \<open>
  \<open>main\<close> reads the manifest, bumps the version, writes the manifest back and prints the
  new version; the steps after that run other programs and are not modelled. The state is
  the manifest file (absent, or its content), the contents handed to \<open>write_pyproject\<close> so
  far, and the lines printed. An exception ends \<open>main\<close> in the state reached so far.
\<close>

record world =
  pyproject :: "pystr option"
  writes :: "pystr list"
  stdout :: "pystr list"

definition read_pyproject :: "world \<Rightarrow> error + pystr" where
  "read_pyproject w = (case pyproject w of None \<Rightarrow> Inl FileNotFoundError | Some c \<Rightarrow> Inr c)"

definition write_pyproject :: "pystr \<Rightarrow> world \<Rightarrow> world" where
  "write_pyproject content w = w\<lparr>pyproject := Some content, writes := writes w @ [content]\<rparr>"

definition print :: "pystr \<Rightarrow> world \<Rightarrow> world" where
  "print line w = w\<lparr>stdout := stdout w @ [line]\<rparr>"

definition main :: "pystr \<Rightarrow> world \<Rightarrow> error option \<times> world" where
  "main part w =
     (case read_pyproject w of
        Inl e \<Rightarrow> (Some e, w)
      | Inr content \<Rightarrow>
          (case bump_version content part of
             Inl e \<Rightarrow> (Some e, w)
           | Inr (new_content, new_version) \<Rightarrow>
               (None, print (str ''Bumped version to '' @ new_version)
                        (write_pyproject new_content w))))"

section \<open>Notions the properties are stated with\<close>

text \<open>
  A version declaration, written out: \<open>version\<close>, blanks, \<open>=\<close>, blanks, and three
  non-empty runs of digits between dots and double quotes.
\<close>

definition digits :: "pystr \<Rightarrow> bool" where
  "digits a \<longleftrightarrow> a \<noteq> [] \<and> list_all is_digit a"

definition head_of :: "pystr \<Rightarrow> pystr \<Rightarrow> pystr" where
  "head_of ws1 ws2 = str ''version'' @ ws1 @ [61] @ ws2 @ [QUOTE]"

definition decl_of :: "pystr \<Rightarrow> pystr \<Rightarrow> pystr \<Rightarrow> pystr \<Rightarrow> pystr \<Rightarrow> rmatch" where
  "decl_of ws1 ws2 a b c = \<lparr>g1 = head_of ws1 ws2, g2 = a, g3 = b, g4 = c, g5 = [QUOTE]\<rparr>"

text \<open>
  Position \<open>i\<close> of \<open>s\<close> is where \<open>^\<close> holds: the start of the text (when \<open>b\<close> says the
  text starts a line) or the place right after a newline.
\<close>

definition at_bol :: "bool \<Rightarrow> pystr \<Rightarrow> nat \<Rightarrow> bool" where
  "at_bol b s i = (if i = 0 then b else s ! (i - 1) = NL)"

text \<open>
  The positions where the pattern matches without its anchor, and those where it matches
  with it: the version declarations of the text, in document order.
\<close>

definition pattern_positions :: "pystr \<Rightarrow> nat list" where
  "pattern_positions s = filter (\<lambda>i. match_at (drop i s) \<noteq> None) [0..<Suc (length s)]"

definition decl_positions :: "pystr \<Rightarrow> nat list" where
  "decl_positions s =
     filter (\<lambda>i. at_bol True s i \<and> match_at (drop i s) \<noteq> None) [0..<Suc (length s)]"

text \<open>
  The three numbers of a match; a match all of whose numbers \<open>int\<close> accepts; and a version
  all of whose numbers can be written out.
\<close>

definition nums :: "rmatch \<Rightarrow> int \<times> int \<times> int" where
  "nums m = (int (decimal (g2 m)), int (decimal (g3 m)), int (decimal (g4 m)))"

definition within_limit :: "rmatch \<Rightarrow> bool" where
  "within_limit m \<longleftrightarrow>
     length (g2 m) \<le> max_str_digits \<and> length (g3 m) \<le> max_str_digits \<and>
     length (g4 m) \<le> max_str_digits"

definition fits :: "int \<times> int \<times> int \<Rightarrow> bool" where
  "fits v =
     (case v of (x, y, z) \<Rightarrow>
        ndigits x \<le> max_str_digits \<and> ndigits y \<le> max_str_digits \<and> ndigits z \<le> max_str_digits)"

text \<open>
  The first declaration of a text: the text before it, its group 1, its three numbers
  and the text after its closing quote.
\<close>

definition first_decl :: "pystr \<Rightarrow> (pystr \<times> pystr \<times> (int \<times> int \<times> int) \<times> pystr) option" where
  "first_decl s =
     (case re_search match_at True s of
        None \<Rightarrow> None
      | Some (pre, m, rest) \<Rightarrow>
          (case (int_of_str (g2 m), int_of_str (g3 m), int_of_str (g4 m)) of
             (Inr x, Inr y, Inr z) \<Rightarrow> Some (pre, g1 m, (x, y, z), rest)
           | _ \<Rightarrow> None))"

definition parse_version :: "pystr \<Rightarrow> (int \<times> int \<times> int) option" where
  "parse_version s = map_option (\<lambda>(pre, h, v, rest). v) (first_decl s)"

text \<open>A version as \<open>MAJOR.MINOR.PATCH\<close>, and the order of semantic versions.\<close>

definition dotted :: "int \<times> int \<times> int \<Rightarrow> pystr" where
  "dotted v = (case v of (x, y, z) \<Rightarrow> dec_int x @ [DOT] @ dec_int y @ [DOT] @ dec_int z)"

definition ver_less :: "int \<times> int \<times> int \<Rightarrow> int \<times> int \<times> int \<Rightarrow> bool" where
  "ver_less v w =
     (case v of (a, b, c) \<Rightarrow> case w of (a', b', c') \<Rightarrow>
        a < a' \<or> (a = a' \<and> (b < b' \<or> (b = b' \<and> c < c'))))"

section \<open>The pattern, declaratively\<close>

lemma lit_iff: "lit l s = Some (u, r) \<longleftrightarrow> u = l \<and> s = l @ r"
  by (auto simp: lit_def) (metis append_take_drop_id)

lemma lit_None: "lit l (l @ r) \<noteq> None"
  by (simp add: lit_def)

lemma star_iff:
  "star P s = Some (u, r) \<longleftrightarrow> s = u @ r \<and> list_all P u \<and> (r = [] \<or> \<not> P (hd r))"
proof
  assume "star P s = Some (u, r)"
  then have u: "u = takeWhile P s" and r: "r = dropWhile P s"
    by (simp_all add: star_def)
  show "s = u @ r \<and> list_all P u \<and> (r = [] \<or> \<not> P (hd r))"
    unfolding u r
    using hd_dropWhile [of P s]
    by (auto simp: list_all_iff dest: set_takeWhileD)
next
  assume h: "s = u @ r \<and> list_all P u \<and> (r = [] \<or> \<not> P (hd r))"
  then have "takeWhile P s = u \<and> dropWhile P s = r"
    by (cases r) (auto simp: list_all_iff takeWhile_append2 dropWhile_append2 takeWhile_eq_all_conv dropWhile_eq_Nil_conv)
  then show "star P s = Some (u, r)"
    by (simp add: star_def)
qed

lemma plus1_iff:
  "plus1 P s = Some (u, r) \<longleftrightarrow>
     u \<noteq> [] \<and> s = u @ r \<and> list_all P u \<and> (r = [] \<or> \<not> P (hd r))"
  using star_iff [of P s u r] by (auto simp: plus1_def star_def)

lemma seq_iff:
  "seq p q s = Some (w, r) \<longleftrightarrow>
     (\<exists>u v t. p s = Some (u, t) \<and> q t = Some (v, r) \<and> w = u @ v)"
  by (auto simp: seq_def split: option.splits)

lemma str_eq [simp]: "str ''='' = [61]"
  by (simp add: str_def)

lemma str_version: "str ''version'' = [118, 101, 114, 115, 105, 111, 110]"
  by (simp add: str_def)

lemma not_space [simp]: "\<not> is_space 61" "\<not> is_space QUOTE" "\<not> is_space 118"
  by (simp_all add: is_space_def QUOTE_def)

lemma not_digit [simp]: "\<not> is_digit DOT" "\<not> is_digit QUOTE" "\<not> is_digit 118"
  by (simp_all add: is_digit_def QUOTE_def DOT_def)

lemma lit_append: "lit l (l @ r) = Some (l, r)"
  by (simp add: lit_def)

lemma star_append:
  "list_all P u \<Longrightarrow> r = [] \<or> \<not> P (hd r) \<Longrightarrow> star P (u @ r) = Some (u, r)"
  by (simp add: star_iff)

lemma plus1_append:
  "u \<noteq> [] \<Longrightarrow> list_all P u \<Longrightarrow> r = [] \<or> \<not> P (hd r) \<Longrightarrow> plus1 P (u @ r) = Some (u, r)"
  by (simp add: plus1_iff)

lemma head_intro:
  assumes "list_all is_space ws1" "list_all is_space ws2"
  shows "head (head_of ws1 ws2 @ r) = Some (head_of ws1 ws2, r)"
proof -
  have 1: "lit [QUOTE] ([QUOTE] @ r) = Some ([QUOTE], r)"
    by (rule lit_append)
  have 2: "star is_space (ws2 @ [QUOTE] @ r) = Some (ws2, [QUOTE] @ r)"
    using assms(2) by (intro star_append) simp_all
  have 3: "lit [61] ([61] @ ws2 @ [QUOTE] @ r) = Some ([61], ws2 @ [QUOTE] @ r)"
    by (rule lit_append)
  have 4: "star is_space (ws1 @ [61] @ ws2 @ [QUOTE] @ r) = Some (ws1, [61] @ ws2 @ [QUOTE] @ r)"
    using assms(1) by (intro star_append) simp_all
  have 5: "lit (str ''version'') (str ''version'' @ ws1 @ [61] @ ws2 @ [QUOTE] @ r)
             = Some (str ''version'', ws1 @ [61] @ ws2 @ [QUOTE] @ r)"
    by (rule lit_append)
  show ?thesis
    unfolding head_def head_of_def seq_def using 1 2 3 4 5 by simp
qed

lemma head_elim:
  assumes "head s = Some (h, r)"
  shows "\<exists>ws1 ws2. list_all is_space ws1 \<and> list_all is_space ws2 \<and>
           h = head_of ws1 ws2 \<and> s = h @ r"
  using assms unfolding head_def seq_iff lit_iff star_iff head_of_def
  by auto

lemma match_at_intro:
  assumes "list_all is_space ws1" "list_all is_space ws2" "digits a" "digits b" "digits c"
  shows "match_at (g0 (decl_of ws1 ws2 a b c) @ rest) = Some (decl_of ws1 ws2 a b c, rest)"
proof -
  have 1: "head (head_of ws1 ws2 @ a @ [DOT] @ b @ [DOT] @ c @ [QUOTE] @ rest)
             = Some (head_of ws1 ws2, a @ [DOT] @ b @ [DOT] @ c @ [QUOTE] @ rest)"
    using assms(1,2) by (rule head_intro)
  have 2: "plus1 is_digit (a @ [DOT] @ b @ [DOT] @ c @ [QUOTE] @ rest)
             = Some (a, [DOT] @ b @ [DOT] @ c @ [QUOTE] @ rest)"
    using assms(3) by (intro plus1_append) (simp_all add: digits_def)
  have 3: "lit [DOT] ([DOT] @ b @ [DOT] @ c @ [QUOTE] @ rest)
             = Some ([DOT], b @ [DOT] @ c @ [QUOTE] @ rest)"
    by (rule lit_append)
  have 4: "plus1 is_digit (b @ [DOT] @ c @ [QUOTE] @ rest) = Some (b, [DOT] @ c @ [QUOTE] @ rest)"
    using assms(4) by (intro plus1_append) (simp_all add: digits_def)
  have 5: "lit [DOT] ([DOT] @ c @ [QUOTE] @ rest) = Some ([DOT], c @ [QUOTE] @ rest)"
    by (rule lit_append)
  have 6: "plus1 is_digit (c @ [QUOTE] @ rest) = Some (c, [QUOTE] @ rest)"
    using assms(5) by (intro plus1_append) (simp_all add: digits_def)
  have 7: "lit [QUOTE] ([QUOTE] @ rest) = Some ([QUOTE], rest)"
    by (rule lit_append)
  have "g0 (decl_of ws1 ws2 a b c) @ rest
          = head_of ws1 ws2 @ a @ [DOT] @ b @ [DOT] @ c @ [QUOTE] @ rest"
    by (simp add: g0_def decl_of_def)
  then show ?thesis
    unfolding match_at_def using 1 2 3 4 5 6 7 by (simp add: decl_of_def)
qed

lemma match_at_elim:
  assumes "match_at s = Some (m, rest)"
  shows "\<exists>ws1 ws2 a b c. list_all is_space ws1 \<and> list_all is_space ws2 \<and>
           digits a \<and> digits b \<and> digits c \<and> m = decl_of ws1 ws2 a b c \<and> s = g0 m @ rest"
proof -
  from assms obtain h r1 a r2 d1 r3 b r4 d2 r5 c r6 q where
    h: "head s = Some (h, r1)" and a: "plus1 is_digit r1 = Some (a, r2)" and
    d1: "lit [DOT] r2 = Some (d1, r3)" and b: "plus1 is_digit r3 = Some (b, r4)" and
    d2: "lit [DOT] r4 = Some (d2, r5)" and c: "plus1 is_digit r5 = Some (c, r6)" and
    q: "lit [QUOTE] r6 = Some (q, rest)" and
    m: "m = \<lparr>g1 = h, g2 = a, g3 = b, g4 = c, g5 = q\<rparr>"
    unfolding match_at_def by (auto split: option.splits)
  from head_elim [OF h] obtain ws1 ws2 where
    ws: "list_all is_space ws1" "list_all is_space ws2" "h = head_of ws1 ws2" "s = h @ r1"
    by blast
  have "digits a" "digits b" "digits c"
    using a b c by (simp_all add: plus1_iff digits_def)
  moreover have "m = decl_of ws1 ws2 a b c"
    using m ws(3) q by (simp add: decl_of_def lit_iff)
  moreover have "s = g0 m @ rest"
    using ws(4) a d1 b d2 c q m by (simp add: plus1_iff lit_iff g0_def)
  ultimately show ?thesis
    using ws(1,2) by blast
qed

lemma ver_at_match_at:
  "ver_at s = (case match_at s of None \<Rightarrow> None
               | Some (m, rest) \<Rightarrow> Some (g2 m @ [DOT] @ g3 m @ [DOT] @ g4 m, rest))"
  by (auto simp: ver_at_def match_at_def seq_def lit_def split: option.splits)

lemma match_at_g0: "match_at s = Some (m, rest) \<Longrightarrow> s = g0 m @ rest"
  using match_at_elim by blast

lemma match_at_rest:
  assumes "match_at s = Some (m, rest)"
  shows "match_at (g0 m @ rest') = Some (m, rest')"
  using match_at_elim [OF assms] match_at_intro by blast

lemma g0_shape:
  assumes "match_at s = Some (m, rest)"
  shows "\<exists>t. g0 m = 118 # t \<and> 118 \<notin> set t \<and> last (118 # t) = QUOTE"
proof -
  from match_at_elim [OF assms] obtain ws1 ws2 a b c where
    ws: "list_all is_space ws1" "list_all is_space ws2" and
    d: "digits a" "digits b" "digits c" and m: "m = decl_of ws1 ws2 a b c"
    by blast
  let ?t = "[101, 114, 115, 105, 111, 110] @ ws1 @ [61] @ ws2 @ [QUOTE] @ a @ [DOT] @ b @
            [DOT] @ c @ [QUOTE]"
  have "g0 m = 118 # ?t"
    by (simp add: m g0_def decl_of_def head_of_def str_version)
  moreover have "118 \<notin> set ?t"
    using ws d by (auto simp: digits_def list_all_iff QUOTE_def DOT_def)
  moreover have "last (118 # ?t) = QUOTE"
    by simp
  ultimately show ?thesis
    by metis
qed

lemma match_at_within:
  assumes "match_at (u @ 118 # x) = Some (m, r)" and "u \<noteq> []"
  shows "\<exists>u'. u = g0 m @ u' \<and> r = u' @ 118 # x"
proof -
  from g0_shape [OF assms(1)] obtain t where t: "g0 m = 118 # t" "118 \<notin> set t"
    by blast
  have "u @ 118 # x = g0 m @ r"
    using assms(1) by (rule match_at_g0)
  then obtain us where
    us: "u = g0 m @ us \<and> us @ 118 # x = r \<or> u @ us = g0 m \<and> 118 # x = us @ r"
    unfolding append_eq_append_conv2 by blast
  have "us = [] \<Longrightarrow> u = g0 m @ [] \<and> [] @ 118 # x = r"
    using us by auto
  with us consider us where "u = g0 m @ us" "us @ 118 # x = r"
    | us where "u @ us = g0 m" "118 # x = us @ r" "us \<noteq> []"
    by blast
  then show ?thesis
  proof cases
    case 1
    then show ?thesis by blast
  next
    case 2
    then obtain us' where "us = 118 # us'"
      by (cases us) auto
    with 2(1) t(1) assms(2) have "118 \<in> set t"
      by (cases u) auto
    with t(2) show ?thesis by simp
  qed
qed

lemma match_at_None_cong:
  assumes "match_at (u @ 118 # x) = None" and "u \<noteq> []"
  shows "match_at (u @ 118 # y) = None"
proof (rule ccontr)
  assume "match_at (u @ 118 # y) \<noteq> None"
  then obtain m r where mr: "match_at (u @ 118 # y) = Some (m, r)"
    by auto
  from match_at_within [OF mr assms(2)] obtain u' where "u = g0 m @ u'"
    by blast
  then have "match_at (u @ 118 # x) = Some (m, u' @ 118 # x)"
    using match_at_rest [OF mr, of "u' @ 118 # x"] by simp
  with assms(1) show False by simp
qed

section \<open>Searching\<close>

lemma at_bol_0 [simp]: "at_bol b s 0 = b"
  by (simp add: at_bol_def)

lemma at_bol_Suc [simp]: "at_bol b (c # cs) (Suc i) = at_bol (c = NL) cs i"
  by (cases i) (simp_all add: at_bol_def)

lemma all_le_Suc: "(\<forall>i\<le>Suc n. P i) \<longleftrightarrow> P 0 \<and> (\<forall>i\<le>n. P (Suc i))"
  by (metis Suc_le_mono le0 not0_implies_Suc)

lemma all_less_Suc: "(\<forall>i<Suc n. P i) \<longleftrightarrow> P 0 \<and> (\<forall>i<n. P (Suc i))"
  by (metis Suc_less_eq zero_less_Suc not0_implies_Suc)

lemma re_search_None_iff:
  "re_search p b s = None \<longleftrightarrow> (\<forall>i\<le>length s. at_bol b s i \<longrightarrow> p (drop i s) = None)"
proof (induction s arbitrary: b)
  case Nil
  show ?case by (auto split: option.splits)
next
  case (Cons c cs)
  show ?case
    by (auto simp: all_le_Suc Cons.IH split: option.splits)
qed

lemma re_search_Some_iff:
  "re_search p b s = Some (pre, r) \<longleftrightarrow>
     (\<exists>suf. s = pre @ suf \<and> at_bol b s (length pre) \<and> p suf = Some r \<and>
        (\<forall>i<length pre. at_bol b s i \<longrightarrow> p (drop i s) = None))"
proof (induction s arbitrary: b pre)
  case Nil
  show ?case by (auto split: option.splits)
next
  case (Cons c cs)
  show ?case
  proof (cases pre)
    case Nil
    then show ?thesis
      by (auto split: option.splits)
  next
    case (Cons d pre')
    then show ?thesis
      by (auto simp: all_less_Suc Cons.IH split: option.splits)
  qed
qed

section \<open>Decimal numerals\<close>

lemma digits_dec: "digits (dec n)"
proof (induction n rule: dec.induct)
  case (1 n)
  show ?case
  proof (cases "n < 10")
    case True
    then show ?thesis
      by (subst dec.simps) (simp add: digits_def is_digit_def)
  next
    case False
    have "n mod 10 < 10" by simp
    then have "is_digit (48 + n mod 10)"
      unfolding is_digit_def by linarith
    with False 1 show ?thesis
      by (subst dec.simps) (simp add: digits_def)
  qed
qed

lemma decimal_dec: "decimal (dec n) = n"
proof (induction n rule: dec.induct)
  case (1 n)
  show ?case
  proof (cases "n < 10")
    case True
    then show ?thesis
      by (subst dec.simps) (simp add: decimal_def)
  next
    case False
    with 1 have "decimal (dec (n div 10)) = n div 10" by simp
    then have "decimal (dec (n div 10) @ [48 + n mod 10]) = 10 * (n div 10) + n mod 10"
      by (simp add: decimal_def)
    with False show ?thesis
      by (subst dec.simps) simp
  qed
qed

lemma length_dec_decimal:
  assumes "list_all is_digit s" and "s \<noteq> []"
  shows "length (dec (decimal s)) \<le> length s"
  using assms
proof (induction s rule: rev_induct)
  case Nil
  then show ?case by simp
next
  case (snoc c s)
  from snoc.prems(1) have s: "list_all is_digit s" and "is_digit c"
    by simp_all
  then have c: "c - 48 < 10"
    by (auto simp: is_digit_def)
  have d: "decimal (s @ [c]) = 10 * decimal s + (c - 48)"
    by (simp add: decimal_def)
  show ?case
  proof (cases "decimal s = 0")
    case True
    then have "decimal (s @ [c]) < 10"
      using c by (simp add: d)
    then have "length (dec (decimal (s @ [c]))) = 1"
      by (subst dec.simps) simp
    then show ?thesis
      by simp
  next
    case False
    then have ne: "s \<noteq> []"
      by (auto simp: decimal_def)
    from False have big: "\<not> decimal (s @ [c]) < 10"
      by (simp add: d)
    have "decimal (s @ [c]) div 10 = decimal s"
      using c by (simp add: d)
    with big have "length (dec (decimal (s @ [c]))) = Suc (length (dec (decimal s)))"
      by (subst dec.simps) simp
    with snoc.IH [OF s ne] show ?thesis
      by simp
  qed
qed

lemma int_of_str_digits:
  "digits s \<Longrightarrow> length s \<le> max_str_digits \<Longrightarrow> int_of_str s = Inr (int (decimal s))"
  by (simp add: int_of_str_def digits_def)

lemma int_of_str_long: "max_str_digits < length s \<Longrightarrow> int_of_str s = Inl ValueError"
  by (simp add: int_of_str_def)

lemma int_of_str_InrD:
  "int_of_str s = Inr x \<Longrightarrow> length s \<le> max_str_digits \<and> x = int (decimal s)"
  by (auto simp: int_of_str_def split: if_splits)

lemma dec_int_nat: "dec_int (int n) = dec n"
  by (simp add: dec_int_def)

lemma ndigits_nat: "ndigits (int n) = length (dec n)"
  by (simp add: ndigits_def)

lemma str_of_int_nat:
  "length (dec n) \<le> max_str_digits \<Longrightarrow> str_of_int (int n) = Inr (dec n)"
  by (simp add: str_of_int_def ndigits_nat dec_int_nat)

lemma str_of_int_long:
  "max_str_digits < length (dec n) \<Longrightarrow> str_of_int (int n) = Inl ValueError"
  by (simp add: str_of_int_def ndigits_nat)

lemma str_of_int_InlD: "str_of_int i = Inl e \<Longrightarrow> e = ValueError"
  by (auto simp: str_of_int_def split: if_splits)

lemma int_of_str_InlD: "int_of_str s = Inl e \<Longrightarrow> e = ValueError"
  by (auto simp: int_of_str_def split: if_splits)

lemma fits_nat:
  "fits (int a, int b, int c) \<longleftrightarrow>
     length (dec a) \<le> max_str_digits \<and> length (dec b) \<le> max_str_digits \<and>
     length (dec c) \<le> max_str_digits"
  by (simp add: fits_def ndigits_nat)

section \<open>What bump_version computes\<close>

lemma match_at_groups:
  assumes "match_at s = Some (m, rest)"
  shows "digits (g2 m)" "digits (g3 m)" "digits (g4 m)" "g5 m = [QUOTE]"
  using match_at_elim [OF assms] by (auto simp: decl_of_def)

lemma increment_nat:
  "\<exists>a' b' c'. increment part (int a, int b, int c) = (int a', int b', int c')"
proof -
  have "increment part (int a, int b, int c) =
          (if part = str ''major'' then (int (a + 1), int 0, int 0)
           else if part = str ''minor'' then (int a, int (b + 1), int 0)
           else (int a, int b, int (c + 1)))"
    by (simp add: increment_def)
  then show ?thesis
    by (metis (full_types))
qed

lemma dotted_nat: "dotted (int a, int b, int c) = dec a @ [DOT] @ dec b @ [DOT] @ dec c"
  by (simp add: dotted_def dec_int_nat)

lemma within_limit_fits:
  assumes "match_at s = Some (m, rest)" and "within_limit m"
  shows "fits (nums m)"
proof -
  note g = match_at_groups [OF assms(1)]
  have "length (dec (decimal t)) \<le> max_str_digits"
    if "digits t" "length t \<le> max_str_digits" for t
    using length_dec_decimal [of t] that by (simp add: digits_def)
  with g(1-3) assms(2) show ?thesis
    by (simp add: nums_def fits_nat within_limit_def)
qed

lemma repl_ok:
  assumes "match_at s = Some (m, rest)" and "within_limit m"
    and "fits (increment part (nums m))"
  shows "repl part m = Inr (g1 m @ dotted (increment part (nums m)) @ [QUOTE])"
proof -
  note g = match_at_groups [OF assms(1)]
  obtain a b c where v: "increment part (nums m) = (int a, int b, int c)"
    using increment_nat [of part] by (metis nums_def)
  from assms(3) have f: "length (dec a) \<le> max_str_digits" "length (dec b) \<le> max_str_digits"
    "length (dec c) \<le> max_str_digits"
    by (simp_all add: v fits_nat)
  have i: "int_of_str (g2 m) = Inr (int (decimal (g2 m)))"
    "int_of_str (g3 m) = Inr (int (decimal (g3 m)))"
    "int_of_str (g4 m) = Inr (int (decimal (g4 m)))"
    using g(1-3) assms(2) by (simp_all add: int_of_str_digits within_limit_def)
  have "increment part (int (decimal (g2 m)), int (decimal (g3 m)), int (decimal (g4 m))) =
      (int a, int b, int c)"
    using v by (simp add: nums_def)
  then show ?thesis
    using g(4) f by (simp add: repl_def i v str_of_int_nat dotted_nat)
qed

lemma repl_value_error:
  assumes "match_at s = Some (m, rest)"
    and "\<not> (within_limit m \<and> fits (increment part (nums m)))"
  shows "repl part m = Inl ValueError"
proof (cases "within_limit m")
  case False
  then consider "max_str_digits < length (g2 m)" | "max_str_digits < length (g3 m)"
    | "max_str_digits < length (g4 m)"
    by (auto simp: within_limit_def)
  then show ?thesis
  proof cases
    case 1
    then show ?thesis
      by (simp add: repl_def int_of_str_long)
  next
    case 2
    then show ?thesis
      by (cases "int_of_str (g2 m)")
         (auto simp: repl_def int_of_str_long dest: int_of_str_InlD)
  next
    case 3
    then show ?thesis
      by (cases "int_of_str (g2 m)"; cases "int_of_str (g3 m)")
         (auto simp: repl_def int_of_str_long dest: int_of_str_InlD)
  qed
next
  case True
  note g = match_at_groups [OF assms(1)]
  obtain a b c where v: "increment part (nums m) = (int a, int b, int c)"
    using increment_nat [of part] by (metis nums_def)
  have i: "int_of_str (g2 m) = Inr (int (decimal (g2 m)))"
    "int_of_str (g3 m) = Inr (int (decimal (g3 m)))"
    "int_of_str (g4 m) = Inr (int (decimal (g4 m)))"
    using g(1-3) True by (simp_all add: int_of_str_digits within_limit_def)
  have inc: "increment part (int (decimal (g2 m)), int (decimal (g3 m)), int (decimal (g4 m))) =
      (int a, int b, int c)"
    using v by (simp add: nums_def)
  from assms(2) True have "\<not> fits (int a, int b, int c)"
    by (simp add: v)
  then consider "max_str_digits < length (dec a)" | "max_str_digits < length (dec b)"
    | "max_str_digits < length (dec c)"
    by (auto simp: fits_nat)
  then show ?thesis
  proof cases
    case 1
    then show ?thesis
      by (simp add: repl_def i inc str_of_int_long)
  next
    case 2
    then show ?thesis
      by (cases "str_of_int (int a)")
         (auto simp: repl_def i inc str_of_int_long dest: str_of_int_InlD)
  next
    case 3
    then show ?thesis
      by (cases "str_of_int (int a)"; cases "str_of_int (int b)")
         (auto simp: repl_def i inc str_of_int_long dest: str_of_int_InlD)
  qed
qed

lemma match_at_rewritten:
  assumes "match_at s = Some (m, rest)" and "v = (int a, int b, int c)"
  shows "match_at (g1 m @ dotted v @ [QUOTE] @ rest') =
           Some (m\<lparr>g2 := dec a, g3 := dec b, g4 := dec c\<rparr>, rest')"
proof -
  from match_at_elim [OF assms(1)] obtain ws1 ws2 a0 b0 c0 where
    ws: "list_all is_space ws1" "list_all is_space ws2" and m: "m = decl_of ws1 ws2 a0 b0 c0"
    by blast
  have "match_at (g0 (decl_of ws1 ws2 (dec a) (dec b) (dec c)) @ rest') =
          Some (decl_of ws1 ws2 (dec a) (dec b) (dec c), rest')"
    using ws by (intro match_at_intro digits_dec)
  then show ?thesis
    by (simp add: m decl_of_def g0_def assms(2) dotted_nat)
qed

lemma at_bol_append: "i \<le> length pre \<Longrightarrow> at_bol b (pre @ x) i = at_bol b (pre @ y) i"
  by (cases i) (auto simp: at_bol_def nth_append)

lemma match_at_starts:
  assumes "match_at s = Some (m, rest)"
  shows "\<exists>x. s = 118 # x"
  using g0_shape [OF assms] match_at_g0 [OF assms] by auto

lemma re_search_replace:
  assumes "re_search match_at b s = Some (pre, m, rest)" and "match_at (118 # y) = Some r'"
  shows "re_search match_at b (pre @ 118 # y) = Some (pre, r')"
proof -
  from assms(1) obtain suf where suf: "s = pre @ suf" "at_bol b s (length pre)"
    "match_at suf = Some (m, rest)"
    and none: "\<forall>i<length pre. at_bol b s i \<longrightarrow> match_at (drop i s) = None"
    unfolding re_search_Some_iff by blast
  from match_at_starts [OF suf(3)] obtain x where x: "suf = 118 # x"
    by blast
  have 1: "at_bol b (pre @ 118 # y) (length pre)"
    using suf(2) at_bol_append [of "length pre" pre b "118 # y" suf] by (simp add: suf(1))
  have 2: "match_at (drop i (pre @ 118 # y)) = None"
    if "i < length pre" "at_bol b (pre @ 118 # y) i" for i
  proof -
    have "at_bol b s i"
      using that at_bol_append [of i pre b "118 # y" suf] by (simp add: suf(1))
    with none that(1) have "match_at (drop i pre @ 118 # x) = None"
      by (simp add: suf(1) x)
    moreover have "drop i pre \<noteq> []"
      using that(1) by simp
    ultimately have "match_at (drop i pre @ 118 # y) = None"
      by (rule match_at_None_cong)
    then show ?thesis
      using that(1) by simp
  qed
  show ?thesis
    unfolding re_search_Some_iff using 1 2 assms(2) by blast
qed

lemma re_search_map:
  "re_search (\<lambda>s. map_option f (p s)) b s =
     map_option (\<lambda>(pre, r). (pre, f r)) (re_search p b s)"
proof (induction s arbitrary: b)
  case Nil
  show ?case
    by (cases "p []") simp_all
next
  case (Cons c cs)
  show ?case
    by (cases "p (c # cs)"; cases "re_search p (c = NL) cs")
       (auto simp: Cons.IH)
qed

lemma ver_at_map:
  "ver_at = (\<lambda>s. map_option (\<lambda>(m, rest). (g2 m @ [DOT] @ g3 m @ [DOT] @ g4 m, rest))
               (match_at s))"
  by (rule ext) (simp add: ver_at_match_at split: option.splits)

lemma re_search_ver_at:
  assumes "re_search match_at b s = Some (pre, m, rest)"
  shows "re_search ver_at b s = Some (pre, g2 m @ [DOT] @ g3 m @ [DOT] @ g4 m, rest)"
  unfolding ver_at_map re_search_map using assms by simp

lemma re_search_text:
  assumes "re_search match_at b s = Some (pre, m, rest)"
  shows "match_at (g0 m @ rest) = Some (m, rest)" "s = pre @ g0 m @ rest"
proof -
  from assms obtain suf where suf: "s = pre @ suf" "match_at suf = Some (m, rest)"
    unfolding re_search_Some_iff by blast
  from match_at_g0 [OF suf(2)] show "match_at (g0 m @ rest) = Some (m, rest)" "s = pre @ g0 m @ rest"
    using suf by simp_all
qed

lemma nums_nat: "\<exists>a b c. nums m = (int a, int b, int c)"
  by (simp add: nums_def)

lemma first_decl_found:
  assumes "re_search match_at True s = Some (pre, m, rest)" and "within_limit m"
  shows "first_decl s = Some (pre, g1 m, nums m, rest)"
proof -
  note g = match_at_groups [OF re_search_text(1) [OF assms(1)]]
  show ?thesis
    using g(1-3) assms(2)
    by (simp add: first_decl_def assms(1) int_of_str_digits nums_def within_limit_def)
qed

lemma rewritten_found:
  assumes "re_search match_at True text = Some (pre, m, rest)"
    and "v = (int a, int b, int c)"
  shows "re_search match_at True (pre @ g1 m @ dotted v @ [QUOTE] @ rest) =
           Some (pre, m\<lparr>g2 := dec a, g3 := dec b, g4 := dec c\<rparr>, rest)"
proof -
  let ?m' = "m\<lparr>g2 := dec a, g3 := dec b, g4 := dec c\<rparr>"
  have new: "match_at (g1 m @ dotted v @ [QUOTE] @ rest) = Some (?m', rest)"
    using re_search_text(1) [OF assms(1)] assms(2) by (rule match_at_rewritten)
  from match_at_starts [OF new] obtain y where y: "g1 m @ dotted v @ [QUOTE] @ rest = 118 # y"
    by blast
  from re_search_replace [OF assms(1) new [unfolded y]] show ?thesis
    unfolding y .
qed

lemma bump_found:
  assumes "re_search match_at True text = Some (pre, m, rest)"
    and "within_limit m" and "fits (increment part (nums m))"
  shows "subn1 (repl part) text =
           Inr (pre @ g1 m @ dotted (increment part (nums m)) @ [QUOTE] @ rest, 1)"
    and "bump_version text part =
           Inr (pre @ g1 m @ dotted (increment part (nums m)) @ [QUOTE] @ rest,
                dotted (increment part (nums m)))"
    and "first_decl (pre @ g1 m @ dotted (increment part (nums m)) @ [QUOTE] @ rest) =
           Some (pre, g1 m, increment part (nums m), rest)"
proof -
  let ?v = "increment part (nums m)"
  let ?new = "pre @ g1 m @ dotted ?v @ [QUOTE] @ rest"
  obtain a b c where v: "?v = (int a, int b, int c)"
    using nums_nat [of m] increment_nat by metis
  let ?m' = "m\<lparr>g2 := dec a, g3 := dec b, g4 := dec c\<rparr>"
  have found: "re_search match_at True ?new = Some (pre, ?m', rest)"
    using assms(1) v by (rule rewritten_found)
  have r: "repl part m = Inr (g1 m @ dotted ?v @ [QUOTE])"
    using re_search_text(1) [OF assms(1)] assms(2,3) by (rule repl_ok)
  show 1: "subn1 (repl part) text = Inr (?new, 1)"
    by (simp add: subn1_def assms(1) r)
  have "re_search ver_at True ?new = Some (pre, dotted ?v, rest)"
    using re_search_ver_at [OF found] by (simp add: v dotted_nat)
  then show "bump_version text part = Inr (?new, dotted ?v)"
    by (simp add: bump_version_def 1)
  have "nums ?m' = (int a, int b, int c)"
    by (simp add: nums_def decimal_dec)
  then have n: "nums ?m' = ?v"
    by (simp only: v)
  have "within_limit ?m'"
    using assms(3) by (simp add: v fits_nat within_limit_def)
  from first_decl_found [OF found this] n show "first_decl ?new = Some (pre, g1 m, ?v, rest)"
    by simp
qed

lemma bump_value_error:
  assumes "re_search match_at True text = Some (pre, m, rest)"
    and "\<not> (within_limit m \<and> fits (increment part (nums m)))"
  shows "bump_version text part = Inl ValueError"
proof -
  have "repl part m = Inl ValueError"
    using re_search_text(1) [OF assms(1)] assms(2) by (rule repl_value_error)
  then show ?thesis
    by (simp add: bump_version_def subn1_def assms(1))
qed

lemma bump_none:
  assumes "re_search match_at True text = None"
  shows "bump_version text part = Inl (RuntimeError not_found)"
  by (simp add: bump_version_def subn1_def assms)

section \<open>The declarations of a text\<close>

lemma mem_decl_positions:
  "i \<in> set (decl_positions s) \<longleftrightarrow>
     i \<le> length s \<and> at_bol True s i \<and> match_at (drop i s) \<noteq> None"
  by (simp add: decl_positions_def less_Suc_eq_le conj_ac del: upt_Suc)

lemma mem_pattern_positions:
  "i \<in> set (pattern_positions s) \<longleftrightarrow> i \<le> length s \<and> match_at (drop i s) \<noteq> None"
  by (simp add: pattern_positions_def less_Suc_eq_le del: upt_Suc)

lemma decl_positions_Nil_iff:
  "decl_positions s = [] \<longleftrightarrow> re_search match_at True s = None"
proof
  assume empty: "decl_positions s = []"
  have "match_at (drop i s) = None" if "i \<le> length s" "at_bol True s i" for i
  proof (rule ccontr)
    assume "match_at (drop i s) \<noteq> None"
    with that have "i \<in> set (decl_positions s)"
      by (simp add: mem_decl_positions)
    with empty show False
      by simp
  qed
  then have "\<forall>i\<le>length s. at_bol True s i \<longrightarrow> match_at (drop i s) = None"
    by simp
  then show "re_search match_at True s = None"
    by (simp only: re_search_None_iff)
next
  assume "re_search match_at True s = None"
  then have none: "\<forall>i\<le>length s. at_bol True s i \<longrightarrow> match_at (drop i s) = None"
    by (simp only: re_search_None_iff)
  show "decl_positions s = []"
  proof (cases "decl_positions s")
    case Nil
    then show ?thesis .
  next
    case (Cons i js)
    then have "i \<in> set (decl_positions s)"
      by simp
    then have "i \<le> length s" "at_bol True s i" "match_at (drop i s) \<noteq> None"
      by (simp_all add: mem_decl_positions)
    with none show ?thesis
      by simp
  qed
qed

lemma hd_filter_upt:
  assumes "i < n" "P i" "\<forall>j<i. \<not> P j"
  shows "hd (filter P [0..<n]) = i"
proof -
  define k where "k = n - i - 1"
  have k: "n = i + Suc k"
    using assms(1) by (simp add: k_def)
  have "[0..<i + Suc k] = [0..<i] @ [i..<i + Suc k]"
    by (rule upt_add_eq_append) simp
  moreover have "[i..<i + Suc k] = i # [Suc i..<i + Suc k]"
    by (rule upt_conv_Cons) simp
  ultimately have "[0..<n] = [0..<i] @ i # [Suc i..<n]"
    by (simp only: k)
  moreover have "filter P [0..<i] = []"
    using assms(3) by (simp add: filter_empty_conv)
  ultimately show ?thesis
    using assms(2) by simp
qed

lemma decl_positions_first:
  assumes "re_search match_at True s = Some (pre, m, rest)"
  shows "decl_positions s \<noteq> []" "hd (decl_positions s) = length pre"
proof -
  show "decl_positions s \<noteq> []"
    using assms by (simp add: decl_positions_Nil_iff)
  from assms obtain suf where suf: "s = pre @ suf" "at_bol True s (length pre)"
    "match_at suf = Some (m, rest)"
    and none: "\<forall>i<length pre. at_bol True s i \<longrightarrow> match_at (drop i s) = None"
    unfolding re_search_Some_iff by blast
  show "hd (decl_positions s) = length pre"
    unfolding decl_positions_def
    by (rule hd_filter_upt) (use suf none in auto)
qed

lemma decl_positions_later:
  assumes "re_search match_at True s = Some (pre, m, rest)"
    and "i \<in> set (decl_positions s)" and "i \<noteq> length pre"
  shows "length pre + length (g0 m) < i"
proof -
  from assms(1) obtain suf where "s = pre @ suf"
    and none: "\<forall>i<length pre. at_bol True s i \<longrightarrow> match_at (drop i s) = None"
    unfolding re_search_Some_iff by blast
  note s = re_search_text [OF assms(1)]
  from g0_shape [OF s(1)] obtain t where t: "g0 m = 118 # t" "118 \<notin> set t" "last (118 # t) = QUOTE"
    by blast
  from assms(2) have i: "i \<le> length s" "at_bol True s i" "match_at (drop i s) \<noteq> None"
    by (simp_all add: mem_decl_positions)
  from i(3) obtain m' r' where "match_at (drop i s) = Some (m', r')"
    by auto
  from match_at_starts [OF this] obtain x where x: "drop i s = 118 # x"
    by blast
  then have "drop i s \<noteq> []"
    by simp
  then have lt: "i < length s"
    by simp
  have "s ! i = hd (drop i s)"
    using lt by (simp add: hd_drop_conv_nth)
  then have nth: "s ! i = 118"
    by (simp add: x)
  have "\<not> i < length pre"
  proof
    assume "i < length pre"
    with none i(2) have "match_at (drop i s) = None"
      by simp
    with i(3) show False
      by simp
  qed
  with assms(3) have gt: "length pre < i"
    by simp
  show ?thesis
  proof (rule ccontr)
    assume "\<not> length pre + length (g0 m) < i"
    then have le: "i \<le> length pre + length (g0 m)"
      by simp
    show False
    proof (cases "i = length pre + length (g0 m)")
      case True
      have ne: "g0 m \<noteq> []"
        by (simp add: t(1))
      have "s = (pre @ g0 m) @ rest"
        by (simp add: s(2))
      moreover have "i - 1 < length (pre @ g0 m)"
        using True ne by simp
      ultimately have "s ! (i - 1) = (pre @ g0 m) ! (i - 1)"
        by (simp only: nth_append if_True)
      also have "\<dots> = last (pre @ g0 m)"
        using True ne by (simp add: last_conv_nth)
      also have "\<dots> = QUOTE"
        using t(3) ne by (simp add: t(1))
      finally show False
        using i(2) gt by (simp add: at_bol_def NL_def QUOTE_def)
    next
      case False
      define j where "j = i - length pre - 1"
      have j: "i = length pre + Suc j" "Suc j < length (g0 m)"
        using le gt False by (simp_all add: j_def)
      then have "s ! i = t ! j"
        by (simp add: s(2) nth_append t(1))
      moreover have "t ! j \<in> set t"
        using j(2) by (simp add: t(1))
      ultimately show False
        using nth t(2) by simp
    qed
  qed
qed

section \<open>Auxiliary facts for the properties\<close>

lemma first_decl_SomeD:
  assumes "first_decl s = Some (pre, h, v, rest)"
  shows "\<exists>m. re_search match_at True s = Some (pre, m, rest) \<and> h = g1 m \<and> v = nums m \<and>
           within_limit m"
proof (cases "re_search match_at True s")
  case None
  with assms show ?thesis
    by (simp add: first_decl_def)
next
  case (Some r)
  obtain pre' m rest' where r: "r = (pre', m, rest')"
    by (cases r)
  from assms obtain x y z where i: "int_of_str (g2 m) = Inr x" "int_of_str (g3 m) = Inr y"
    "int_of_str (g4 m) = Inr z" and eq: "pre = pre'" "h = g1 m" "v = (x, y, z)" "rest = rest'"
    by (auto simp: first_decl_def Some r split: sum.splits)
  from i [THEN int_of_str_InrD] have "within_limit m" "(x, y, z) = nums m"
    by (simp_all add: within_limit_def nums_def)
  with eq Some r show ?thesis
    by simp
qed

lemma decl_positions_found:
  assumes "decl_positions s \<noteq> []"
  shows "\<exists>pre m rest. re_search match_at True s = Some (pre, m, rest)"
proof (cases "re_search match_at True s")
  case None
  with assms show ?thesis
    by (simp add: decl_positions_Nil_iff)
next
  case (Some r)
  then show ?thesis
    by (cases r) simp
qed

lemma str_parts [simp]:
  "str ''patch'' \<noteq> str ''major''" "str ''patch'' \<noteq> str ''minor''"
  "str ''minor'' \<noteq> str ''major''"
  by (simp_all add: str_def)

lemma increment_simps:
  "increment (str ''major'') (x, y, z) = (x + 1, 0, 0)"
  "increment (str ''minor'') (x, y, z) = (x, y + 1, 0)"
  "increment (str ''patch'') (x, y, z) = (x, y, z + 1)"
  "part \<noteq> str ''major'' \<Longrightarrow> part \<noteq> str ''minor'' \<Longrightarrow> increment part (x, y, z) = (x, y, z + 1)"
  by (simp_all add: increment_def)

lemmas bump_eval =
  bump_version_def subn1_def match_at_def ver_at_def head_def seq_def lit_def star_def
  plus1_def str_def NL_def QUOTE_def DOT_def is_space_def is_digit_def repl_def
  increment_def int_of_str_def decimal_def str_of_int_def dec_int_def ndigits_def
  max_str_digits_def dec.simps not_found_def

lemma ver_search_found:
  assumes "re_search match_at True text = Some (pre, m, rest)"
  shows "re_search ver_at True (pre @ g1 m @ dotted (increment part (nums m)) @ [QUOTE] @ rest) =
           Some (pre, dotted (increment part (nums m)), rest)"
proof -
  obtain a b c where v: "increment part (nums m) = (int a, int b, int c)"
    using nums_nat [of m] increment_nat by metis
  from rewritten_found [OF assms v] have
    "re_search match_at True (pre @ g1 m @ dotted (increment part (nums m)) @ [QUOTE] @ rest) =
       Some (pre, m\<lparr>g2 := dec a, g3 := dec b, g4 := dec c\<rparr>, rest)" .
  from re_search_ver_at [OF this] show ?thesis
    by (simp add: v dotted_nat)
qed

lemma bump_first_decl:
  assumes "first_decl text = Some (pre, h, v, rest)" and "fits (increment part v)"
  shows "\<exists>new_text new_version. bump_version text part = Inr (new_text, new_version) \<and>
           first_decl new_text = Some (pre, h, increment part v, rest)"
proof -
  from first_decl_SomeD [OF assms(1)] obtain m where
    found: "re_search match_at True text = Some (pre, m, rest)" and hv: "h = g1 m" "v = nums m"
    and lim: "within_limit m"
    by blast
  from bump_found(2,3) [OF found lim, of part] assms(2) show ?thesis
    unfolding hv by blast
qed

lemma ver_less_increment:
  assumes "part \<in> {str ''patch'', str ''minor'', str ''major''}"
  shows "ver_less v (increment part v)"
proof -
  obtain x y z where v: "v = (x, y, z)"
    by (cases v)
  from assms show ?thesis
    by (auto simp: v ver_less_def increment_simps)
qed

lemma drop_past: "drop (length pre + length w + k) (pre @ w @ rest) = drop k rest"
  by simp

lemma nth_past: "(pre @ w @ rest) ! (length pre + length w + k) = rest ! k"
  by (simp add: nth_append)

lemma at_bol_past:
  "at_bol True (pre @ w @ rest) (length pre + length w + Suc k) \<longleftrightarrow> rest ! k = NL"
  using nth_past [of pre w rest k] by (simp add: at_bol_def)

lemma later_position_kept:
  assumes "re_search match_at True (pre @ w @ rest) = Some (pre, m, rest)"
    and "i \<in> set (decl_positions (pre @ w @ rest))" and "i \<noteq> length pre"
  shows "\<exists>k. i = length pre + length w + k \<and>
           length pre + length r + k \<in> set (decl_positions (pre @ r @ rest)) \<and>
           drop (length pre + length r + k) (pre @ r @ rest) = drop i (pre @ w @ rest)"
proof -
  from re_search_text(2) [OF assms(1)] have w: "w = g0 m"
    by simp
  from decl_positions_later [OF assms] have "length pre + length w < i"
    by (simp add: w)
  then obtain k where k: "i = length pre + length w + Suc k"
    using less_imp_Suc_add by (metis add_Suc_right)
  from assms(2) [unfolded mem_decl_positions] have i: "i \<le> length (pre @ w @ rest)" "at_bol True (pre @ w @ rest) i"
    "match_at (drop i (pre @ w @ rest)) \<noteq> None"
    by blast+
  have 1: "length pre + length r + Suc k \<le> length (pre @ r @ rest)"
    using i(1) by (simp add: k)
  have 2: "at_bol True (pre @ r @ rest) (length pre + length r + Suc k)"
    using i(2) by (simp only: k at_bol_past)
  have 3: "drop (length pre + length r + Suc k) (pre @ r @ rest) = drop i (pre @ w @ rest)"
    by (simp only: k drop_past)
  have "length pre + length r + Suc k \<in> set (decl_positions (pre @ r @ rest))"
    unfolding mem_decl_positions using 1 2 i(3) by (simp only: 3 simp_thms)
  with 3 k show ?thesis
    by blast
qed

lemma re_search_at_line_start:
  assumes "re_search p True s = Some (pre, r)"
  shows "pre = [] \<or> last pre = NL"
proof (cases "pre = []")
  case True
  then show ?thesis by simp
next
  case False
  from assms obtain suf where s: "s = pre @ suf" and bol: "at_bol True s (length pre)"
    unfolding re_search_Some_iff by blast
  from False have "s ! (length pre - 1) = last pre"
    by (simp add: s nth_append last_conv_nth)
  with bol False show ?thesis
    by (simp add: at_bol_def)
qed

lemma re_search_in_pattern_positions:
  assumes "re_search match_at True s = Some (pre, m, rest)"
  shows "length pre \<in> set (pattern_positions s)" "at_bol True s (length pre)"
proof -
  from assms obtain suf where s: "s = pre @ suf" and bol: "at_bol True s (length pre)"
    and m: "match_at suf = Some (m, rest)"
    unfolding re_search_Some_iff by blast
  show "at_bol True s (length pre)"
    by (rule bol)
  show "length pre \<in> set (pattern_positions s)"
    unfolding mem_pattern_positions using m by (simp add: s)
qed

lemma re_search_after_prefix:
  assumes "decl_positions pre = []" and "pre = [] \<or> last pre = NL"
    and "match_at (w @ rest) = Some (m, rest)"
  shows "re_search match_at True (pre @ w @ rest) = Some (pre, m, rest)"
proof -
  from match_at_starts [OF assms(3)] obtain x where x: "w @ rest = 118 # x"
    by blast
  have bol: "at_bol True (pre @ w @ rest) (length pre)"
  proof (cases "pre = []")
    case True
    then show ?thesis by simp
  next
    case False
    with assms(2) have "last pre = NL"
      by simp
    moreover have "(pre @ w @ rest) ! (length pre - 1) = last pre"
      using False by (simp add: nth_append last_conv_nth)
    ultimately show ?thesis
      using False by (simp add: at_bol_def)
  qed
  have none: "match_at (drop i (pre @ w @ rest)) = None"
    if "i < length pre" "at_bol True (pre @ w @ rest) i" for i
  proof (rule ccontr)
    assume some: "match_at (drop i (pre @ w @ rest)) \<noteq> None"
    have "drop i (pre @ w @ rest) = drop i pre @ 118 # x"
      using that(1) by (simp add: x)
    with some obtain m' r' where m': "match_at (drop i pre @ 118 # x) = Some (m', r')"
      by auto
    have ne: "drop i pre \<noteq> []"
      using that(1) by simp
    from match_at_within [OF m' ne] obtain u' where u': "drop i pre = g0 m' @ u'"
      by blast
    have "match_at (drop i pre) = Some (m', u')"
      using match_at_rest [OF m', of u'] by (simp add: u')
    moreover have "at_bol True pre i"
      using that at_bol_append [of i pre True "[]" "w @ rest"] by simp
    ultimately have "i \<in> set (decl_positions pre)"
      using that(1) by (simp add: mem_decl_positions)
    with assms(1) show False
      by simp
  qed
  show ?thesis
    unfolding re_search_Some_iff using bol none assms(3) by blast
qed

lemma re_search_at_start:
  assumes "match_at s = Some (m, rest)"
  shows "re_search match_at True s = Some ([], m, rest)"
proof -
  from match_at_starts [OF assms] obtain x where "s = 118 # x"
    by blast
  with assms show ?thesis
    by simp
qed

lemma nums_decl_of: "nums (decl_of ws1 ws2 a b c) = (int (decimal a), int (decimal b), int (decimal c))"
  by (simp add: nums_def decl_of_def)

lemma within_limit_decl_of:
  "within_limit (decl_of ws1 ws2 a b c) \<longleftrightarrow>
     length a \<le> max_str_digits \<and> length b \<le> max_str_digits \<and> length c \<le> max_str_digits"
  by (simp add: within_limit_def decl_of_def)

lemma declared_value_error:
  assumes "decl_positions pre = []" and "pre = [] \<or> last pre = NL"
    and "list_all is_space ws1" and "list_all is_space ws2"
    and "digits a" and "digits b" and "digits c"
    and "\<not> (length a \<le> max_str_digits \<and> length b \<le> max_str_digits \<and>
            length c \<le> max_str_digits \<and>
            fits (increment part (int (decimal a), int (decimal b), int (decimal c))))"
  shows "bump_version (pre @ g0 (decl_of ws1 ws2 a b c) @ trailing) part = Inl ValueError"
proof -
  let ?m = "decl_of ws1 ws2 a b c"
  have m: "match_at (g0 ?m @ trailing) = Some (?m, trailing)"
    using assms(3-7) by (rule match_at_intro)
  have "re_search match_at True (pre @ g0 ?m @ trailing) = Some (pre, ?m, trailing)"
    using assms(1,2) m by (rule re_search_after_prefix)
  moreover have "\<not> (within_limit ?m \<and> fits (increment part (nums ?m)))"
    using assms(8) by (simp add: within_limit_decl_of nums_decl_of)
  ultimately show ?thesis
    by (rule bump_value_error)
qed

lemma decl_positions_Nil [simp]: "decl_positions [] = []"
  by (simp add: decl_positions_def bump_eval)

lemma digits_replicate: "0 < k \<Longrightarrow> is_digit d \<Longrightarrow> digits (replicate k d)"
  by (simp add: digits_def list_all_iff)

lemma decimal_nines: "decimal (replicate k 57) = 10 ^ k - 1"
proof (induction k)
  case 0
  show ?case by (simp add: decimal_def)
next
  case (Suc k)
  have "replicate (Suc k) (57::nat) = replicate k 57 @ [57]"
    by (simp add: replicate_append_same)
  then have "decimal (replicate (Suc k) 57) = 10 * decimal (replicate k 57) + 9"
    by (simp add: decimal_def)
  also have "\<dots> = 10 * (10 ^ k - 1) + 9"
    by (simp only: Suc.IH)
  also have "\<dots> = 10 ^ Suc k - 1"
  proof -
    have "(1::nat) \<le> 10 ^ k" by simp
    then show ?thesis by (simp add: algebra_simps)
  qed
  finally show ?case .
qed

lemma length_dec_power: "length (dec (10 ^ k)) = Suc k"
proof (induction k)
  case 0
  show ?case by (subst dec.simps) simp
next
  case (Suc k)
  have "\<not> (10::nat) ^ Suc k < 10"
    by simp
  moreover have "(10::nat) ^ Suc k div 10 = 10 ^ k"
    by simp
  ultimately have "length (dec (10 ^ Suc k)) = Suc (length (dec (10 ^ k)))"
    by (subst dec.simps) (simp del: power_Suc)
  with Suc.IH show ?case by simp
qed

lemma ndigits_after_nines: "ndigits (int (decimal (replicate k 57)) + 1) = Suc k"
proof -
  have "(1::nat) \<le> 10 ^ k" by simp
  then have "int (decimal (replicate k 57)) + 1 = int (10 ^ k)"
    by (simp add: decimal_nines of_nat_diff)
  then show ?thesis
    by (simp only: ndigits_nat length_dec_power)
qed

lemma declaration_text:
  \<open>str ''version = "'' @ a @ str ''.'' @ b @ str ''.'' @ c @ str ''"'' @ t =
   g0 (decl_of [32] [32] a b c) @ t\<close>
  by (simp add: g0_def decl_of_def head_of_def str_def DOT_def QUOTE_def)

lemma declaration_found:
  assumes "digits a" and "digits b" and "digits c"
  shows \<open>re_search match_at True (str ''version = "'' @ a @ str ''.'' @ b @ str ''.'' @ c @ str ''"'' @ t) =
           Some ([], decl_of [32] [32] a b c, t)\<close>
proof -
  have "match_at (g0 (decl_of [32] [32] a b c) @ t) = Some (decl_of [32] [32] a b c, t)"
    using assms by (intro match_at_intro) (simp_all add: is_space_def)
  from re_search_at_start [OF this] show ?thesis
    by (simp only: declaration_text)
qed

lemma declaration_value_error:
  assumes "digits a" and "digits b" and "digits c"
    and "\<not> (length a \<le> max_str_digits \<and> length b \<le> max_str_digits \<and>
            length c \<le> max_str_digits \<and>
            fits (increment part (int (decimal a), int (decimal b), int (decimal c))))"
  shows \<open>bump_version (str ''version = "'' @ a @ str ''.'' @ b @ str ''.'' @ c @ str ''"'' @ t) part =
           Inl ValueError\<close>
proof -
  have "bump_version ([] @ g0 (decl_of [32] [32] a b c) @ t) part = Inl ValueError"
    using assms by (intro declared_value_error) (simp_all add: is_space_def)
  then show ?thesis
    by (simp only: declaration_text append_Nil)
qed

lemma digits_small [simp]: "digits (str ''1'')" "digits (str ''2'')" "digits (str ''3'')"
  by (simp_all add: digits_def str_def is_digit_def)

lemma nines_parse:
  assumes "0 < k" and "k \<le> max_str_digits"
  shows "int_of_str (replicate k 57) = Inr (int (decimal (replicate k 57)))"
proof -
  have "digits (replicate k 57)"
    using assms(1) by (rule digits_replicate) (simp add: is_digit_def)
  then show ?thesis
    using assms(2) by (intro int_of_str_digits) simp_all
qed

lemma first_decl_declaration:
  assumes "digits a" and "digits b" and "digits c"
    and "length a \<le> max_str_digits" and "length b \<le> max_str_digits"
    and "length c \<le> max_str_digits"
  shows \<open>first_decl (str ''version = "'' @ a @ str ''.'' @ b @ str ''.'' @ c @ str ''"'' @ t) =
           Some ([], str ''version = "'', (int (decimal a), int (decimal b), int (decimal c)), t)\<close>
proof -
  have "within_limit (decl_of [32] [32] a b c)"
    using assms(4-6) by (simp add: within_limit_decl_of)
  from first_decl_found [OF declaration_found [OF assms(1-3)] this, of t] show ?thesis
    by (simp add: decl_of_def head_of_def nums_def str_def QUOTE_def)
qed

lemma fits_small:
  "ndigits 0 \<le> max_str_digits" "ndigits 1 \<le> max_str_digits" "ndigits 2 \<le> max_str_digits"
  "ndigits 3 \<le> max_str_digits" "ndigits 4 \<le> max_str_digits"
  by (simp_all add: ndigits_def dec.simps max_str_digits_def)

lemma decimal_small [simp]:
  "decimal (str ''1'') = 1" "decimal (str ''2'') = 2" "decimal (str ''3'') = 3"
  by (simp_all add: decimal_def str_def)

lemma first_decl_fits:
  assumes "first_decl text = Some (pre, h, v, rest)"
  shows "fits v"
proof -
  from first_decl_SomeD [OF assms] obtain m where
    found: "re_search match_at True text = Some (pre, m, rest)" and v: "v = nums m"
    and lim: "within_limit m"
    by blast
  from within_limit_fits [OF re_search_text(1) [OF found] lim] show ?thesis
    by (simp only: v)
qed

lemma fits_increment:
  assumes "fits (x, y, z)"
  shows "ndigits (x + 1) \<le> max_str_digits \<Longrightarrow> fits (increment (str ''major'') (x, y, z))"
    and "ndigits (y + 1) \<le> max_str_digits \<Longrightarrow> fits (increment (str ''minor'') (x, y, z))"
    and "ndigits (z + 1) \<le> max_str_digits \<Longrightarrow> part \<noteq> str ''major'' \<Longrightarrow>
           part \<noteq> str ''minor'' \<Longrightarrow> fits (increment part (x, y, z))"
  using assms fits_small(1) by (simp_all add: increment_simps fits_def)

lemma decl_positions_single:
  assumes "NL \<notin> set s" and "re_search match_at True s = Some ([], m, rest)"
  shows "decl_positions s = [0]"
proof -
  let ?P = "\<lambda>i. at_bol True s i \<and> match_at (drop i s) \<noteq> None"
  from assms(2) have "match_at s = Some (m, rest)"
    unfolding re_search_Some_iff by simp
  then have 0: "?P 0"
    by simp
  have "\<not> ?P i" if "i \<in> set [Suc 0..<Suc (length s)]" for i
  proof -
    from that have "0 < i" "i - 1 < length s"
      by auto
    then have "s ! (i - 1) \<in> set s"
      by simp
    with assms(1) have "s ! (i - 1) \<noteq> NL"
      by auto
    with \<open>0 < i\<close> show ?thesis
      by (simp add: at_bol_def)
  qed
  then have "filter ?P [Suc 0..<Suc (length s)] = []"
    by (simp only: filter_empty_conv) blast
  moreover have "[0..<Suc (length s)] = 0 # [Suc 0..<Suc (length s)]"
    by (rule upt_conv_Cons) simp
  ultimately show ?thesis
    using 0 by (simp add: decl_positions_def del: upt_Suc)
qed

lemma parse_version_SomeD:
  assumes "parse_version text = Some v"
  shows "\<exists>pre h rest. first_decl text = Some (pre, h, v, rest)"
  using assms by (cases "first_decl text") (auto simp: parse_version_def)

lemma two_declarations:
  assumes "re_search match_at True s = Some (pre, m, NL # d)" and "match_at d \<noteq> None"
  shows "2 \<le> length (decl_positions s)"
proof -
  note t = re_search_text [OF assms(1)]
  define i where "i = length pre"
  define j where "j = Suc (length pre + length (g0 m))"
  have "decl_positions s \<noteq> []" "hd (decl_positions s) = i"
    unfolding i_def using assms(1) by (rule decl_positions_first)+
  then have i: "i \<in> set (decl_positions s)"
    using hd_in_set [of "decl_positions s"] by simp
  have n: "(pre @ g0 m @ NL # d) ! (length pre + length (g0 m)) = NL"
    by (simp add: nth_append)
  have "j \<in> set (decl_positions (pre @ g0 m @ NL # d))"
    unfolding mem_decl_positions j_def using assms(2) n by (simp add: at_bol_def)
  then have j: "j \<in> set (decl_positions s)"
    by (simp only: t(2) [symmetric])
  have "distinct (decl_positions s)"
    by (simp add: decl_positions_def)
  then have "length (decl_positions s) = card (set (decl_positions s))"
    by (simp add: distinct_card)
  moreover have "card {i, j} \<le> card (set (decl_positions s))"
    using i j by (intro card_mono) simp_all
  moreover have "card {i, j} = 2"
    by (simp add: i_def j_def)
  ultimately show ?thesis
    by simp
qed

section \<open>The properties\<close>

text \<open>
  Claim C7. In \<open>main\<close>, when \<open>bump_version\<close> fails on the manifest's content, the run ends
  with that error in the state it started from: the file still holds the content read and
  \<open>write_pyproject\<close> has not been called. The write happens only when \<open>bump_version\<close> has
  returned, and then with the text it returned.
\<close>

theorem main_writes_after_bump:
  assumes "pyproject w = Some content"
  shows "(\<forall>e. bump_version content part = Inl e \<longrightarrow> main part w = (Some e, w)) \<and>
         (\<forall>new_content new_version.
            bump_version content part = Inr (new_content, new_version) \<longrightarrow>
            main part w =
              (None, w\<lparr>pyproject := Some new_content, writes := writes w @ [new_content],
                       stdout := stdout w @ [str ''Bumped version to '' @ new_version]\<rparr>))"
  using assms by (simp add: main_def read_pyproject_def write_pyproject_def print_def)

theorem main_writes_after_bump_witness:
  \<open>pyproject \<lparr>pyproject = Some (str ''name = "x"''), writes = [], stdout = []\<rparr> =
     Some (str ''name = "x"'') \<and>
   bump_version (str ''name = "x"'') (str ''patch'') = Inl (RuntimeError not_found) \<and>
   main (str ''patch'') \<lparr>pyproject = Some (str ''name = "x"''), writes = [], stdout = []\<rparr> =
     (Some (RuntimeError not_found),
      \<lparr>pyproject = Some (str ''name = "x"''), writes = [], stdout = []\<rparr>) \<and>
   bump_version (str ''version = "1.2.3"'') (str ''patch'') =
     Inr (str ''version = "1.2.4"'', str ''1.2.4'') \<and>
   main (str ''patch'') \<lparr>pyproject = Some (str ''version = "1.2.3"''), writes = [], stdout = []\<rparr> =
     (None, \<lparr>pyproject = Some (str ''version = "1.2.4"''),
              writes = [str ''version = "1.2.4"''],
              stdout = [str ''Bumped version to 1.2.4'']\<rparr>)\<close>
proof -
  let ?w = \<open>\<lparr>pyproject = Some (str ''name = "x"''), writes = [], stdout = []\<rparr>\<close>
  let ?v = \<open>\<lparr>pyproject = Some (str ''version = "1.2.3"''), writes = [], stdout = []\<rparr>\<close>
  have 1: \<open>pyproject ?w = Some (str ''name = "x"'')\<close>
    by simp
  have 2: \<open>bump_version (str ''name = "x"'') (str ''patch'') = Inl (RuntimeError not_found)\<close>
    by (simp add: bump_eval)
  have 3: \<open>pyproject ?v = Some (str ''version = "1.2.3"'')\<close>
    by simp
  have 4: \<open>bump_version (str ''version = "1.2.3"'') (str ''patch'') =
     Inr (str ''version = "1.2.4"'', str ''1.2.4'')\<close>
    by (simp add: bump_eval)
  have 5: \<open>str ''Bumped version to '' @ str ''1.2.4'' = str ''Bumped version to 1.2.4''\<close>
    by (simp add: str_def)
  from main_writes_after_bump [OF 1, of "str ''patch''"] 2
  have a: "main (str ''patch'') ?w = (Some (RuntimeError not_found), ?w)"
    by blast
  from main_writes_after_bump [OF 3, of "str ''patch''"] 4
  have b: \<open>main (str ''patch'') ?v =
     (None, ?v\<lparr>pyproject := Some (str ''version = "1.2.4"''),
               writes := writes ?v @ [str ''version = "1.2.4"''],
               stdout := stdout ?v @ [str ''Bumped version to '' @ str ''1.2.4'']\<rparr>)\<close>
    by blast
  from 1 2 a 4 b show ?thesis
    by (simp add: 5)
qed

text \<open>
  Claim C9. The pattern is anchored: a match starts at the start of the text or right
  after a newline. So a text in which every place where the rest of the pattern matches
  has some other character before it on its line (blanks before \<open>version\<close>, for one) has
  no declaration, and \<open>bump_version\<close> fails with the error saying that none was found.
\<close>

theorem declaration_needs_line_start:
  "(\<forall>pre m rest. re_search match_at True text = Some (pre, m, rest) \<longrightarrow>
      pre = [] \<or> last pre = NL) \<and>
   ((\<forall>i \<in> set (pattern_positions text). \<not> at_bol True text i) \<longrightarrow>
      bump_version text part = Inl (RuntimeError not_found))"
proof (intro conjI allI impI)
  fix pre m rest
  assume "re_search match_at True text = Some (pre, m, rest)"
  then show "pre = [] \<or> last pre = NL"
    by (rule re_search_at_line_start)
next
  assume none: "\<forall>i \<in> set (pattern_positions text). \<not> at_bol True text i"
  have "re_search match_at True text = None"
  proof (cases "re_search match_at True text")
    case None
    then show ?thesis .
  next
    case (Some r)
    obtain pre m rest where r: "r = (pre, m, rest)"
      by (cases r)
    from re_search_in_pattern_positions [OF Some [unfolded r]] none show ?thesis
      by blast
  qed
  then show "bump_version text part = Inl (RuntimeError not_found)"
    by (rule bump_none)
qed

theorem declaration_needs_line_start_witness:
  \<open>pattern_positions (str ''[project]\<newline>  version = "1.2.3"'') = [12] \<and>
   \<not> at_bol True (str ''[project]\<newline>  version = "1.2.3"'') 12 \<and>
   bump_version (str ''[project]\<newline>  version = "1.2.3"'') (str ''patch'') =
     Inl (RuntimeError not_found) \<and>
   re_search match_at True (str ''[project]\<newline>version = "1.2.3"'') =
     Some (str ''[project]\<newline>'',
           \<lparr>g1 = str ''version = "'', g2 = str ''1'', g3 = str ''2'', g4 = str ''3'',
            g5 = str ''"''\<rparr>, []) \<and>
   last (str ''[project]\<newline>'') = NL\<close>
proof -
  have 1: \<open>pattern_positions (str ''[project]\<newline>  version = "1.2.3"'') = [12]\<close>
    by (simp add: pattern_positions_def bump_eval)
  have 2: \<open>\<not> at_bol True (str ''[project]\<newline>  version = "1.2.3"'') 12\<close>
    by (simp add: at_bol_def str_def NL_def)
  from 1 2 have 3: \<open>\<forall>i \<in> set (pattern_positions (str ''[project]\<newline>  version = "1.2.3"'')).
      \<not> at_bol True (str ''[project]\<newline>  version = "1.2.3"'') i\<close>
    by simp
  have 4: \<open>re_search match_at True (str ''[project]\<newline>version = "1.2.3"'') =
     Some (str ''[project]\<newline>'',
           \<lparr>g1 = str ''version = "'', g2 = str ''1'', g3 = str ''2'', g4 = str ''3'',
            g5 = str ''"''\<rparr>, [])\<close>
    by (simp add: bump_eval)
  from declaration_needs_line_start
         [of \<open>str ''[project]\<newline>  version = "1.2.3"''\<close> "str ''patch''"] 3
  have 5: \<open>bump_version (str ''[project]\<newline>  version = "1.2.3"'') (str ''patch'') =
     Inl (RuntimeError not_found)\<close>
    by blast
  from declaration_needs_line_start
         [of \<open>str ''[project]\<newline>version = "1.2.3"''\<close> "str ''patch''"] 4
  have 6: \<open>str ''[project]\<newline>'' = [] \<or> last (str ''[project]\<newline>'') = NL\<close>
    by blast
  then have 7: \<open>last (str ''[project]\<newline>'') = NL\<close>
    by (simp add: str_def)
  from 1 2 5 4 7 show ?thesis
    by (intro conjI)
qed

text \<open>
  Claim C2, as stated, fails: a declaration whose patch number has 4301 digits is matched,
  and \<open>bump_version\<close> fails with \<open>ValueError\<close> from \<open>int\<close>, which is neither a return nor the
  error saying that no version was found.
\<close>

theorem matched_digits_may_fail:
  \<open>decl_positions (str ''version = "'' @ str ''1'' @ str ''.'' @ str ''2'' @ str ''.'' @
      replicate 4301 49 @ str ''"'' @ []) \<noteq> [] \<and>
   bump_version (str ''version = "'' @ str ''1'' @ str ''.'' @ str ''2'' @ str ''.'' @
      replicate 4301 49 @ str ''"'' @ []) (str ''patch'') = Inl ValueError\<close>
proof
  have d: "digits (replicate 4301 49)"
    by (rule digits_replicate) (simp_all add: is_digit_def)
  from declaration_found [OF digits_small(1,2) d, of "[]"]
  show \<open>decl_positions (str ''version = "'' @ str ''1'' @ str ''.'' @ str ''2'' @ str ''.'' @
      replicate 4301 49 @ str ''"'' @ []) \<noteq> []\<close>
    by (rule decl_positions_first(1))
  show \<open>bump_version (str ''version = "'' @ str ''1'' @ str ''.'' @ str ''2'' @ str ''.'' @
      replicate 4301 49 @ str ''"'' @ []) (str ''patch'') = Inl ValueError\<close>
    using digits_small(1,2) d by (rule declaration_value_error) (simp add: max_str_digits_def)
qed

text \<open>
  Claim C2, amended. \<open>bump_version\<close> fails with the error saying that no version was found
  exactly when no position of the text is a version declaration. When there is one,
  it returns a new text and a new version if each number of the first declaration has at
  most 4300 digits and each number of the incremented version has at most 4300 digits;
  otherwise it fails with \<open>ValueError\<close>, raised by \<open>int\<close> or by the formatting. It fails in
  no other way. (The code raises a \<open>RuntimeError\<close>; the specification calls it
  \<open>ManifestFormatError\<close>.)
\<close>

theorem bump_version_errors:
  "(bump_version text part = Inl (RuntimeError not_found)) = (decl_positions text = []) \<and>
   (\<forall>pre m rest. re_search match_at True text = Some (pre, m, rest) \<longrightarrow>
      (within_limit m \<and> fits (increment part (nums m)) \<longrightarrow>
         (\<exists>new_text new_version. bump_version text part = Inr (new_text, new_version))) \<and>
      (\<not> (within_limit m \<and> fits (increment part (nums m))) \<longrightarrow>
         bump_version text part = Inl ValueError)) \<and>
   (\<forall>e. bump_version text part = Inl e \<longrightarrow> e = RuntimeError not_found \<or> e = ValueError)"
proof (cases "re_search match_at True text")
  case None
  then have "decl_positions text = []"
    by (simp only: decl_positions_Nil_iff)
  moreover from None have "bump_version text part = Inl (RuntimeError not_found)"
    by (rule bump_none)
  ultimately show ?thesis
    using None by simp
next
  case (Some r)
  obtain pre m rest where r: "r = (pre, m, rest)"
    by (cases r)
  note found = Some [unfolded r]
  have ne: "decl_positions text \<noteq> []"
    using found by (rule decl_positions_first(1))
  show ?thesis
  proof (cases "within_limit m \<and> fits (increment part (nums m))")
    case True
    then have "bump_version text part =
        Inr (pre @ g1 m @ dotted (increment part (nums m)) @ [QUOTE] @ rest,
             dotted (increment part (nums m)))"
      using bump_found(2) [OF found, of part] by simp
    with True ne found show ?thesis
      by simp
  next
    case False
    with found have "bump_version text part = Inl ValueError"
      by (rule bump_value_error)
    with False ne found show ?thesis
      by simp
  qed
qed

theorem bump_version_errors_witness:
  \<open>decl_positions (str ''name = "x"'') = [] \<and>
   bump_version (str ''name = "x"'') (str ''patch'') = Inl (RuntimeError not_found) \<and>
   re_search match_at True (str ''version = "1.2.3"'') =
     Some ([], \<lparr>g1 = str ''version = "'', g2 = str ''1'', g3 = str ''2'', g4 = str ''3'',
                 g5 = str ''"''\<rparr>, []) \<and>
   within_limit \<lparr>g1 = str ''version = "'', g2 = str ''1'', g3 = str ''2'', g4 = str ''3'',
                 g5 = str ''"''\<rparr> \<and>
   fits (increment (str ''patch'')
     (nums \<lparr>g1 = str ''version = "'', g2 = str ''1'', g3 = str ''2'', g4 = str ''3'',
            g5 = str ''"''\<rparr>)) \<and>
   (\<exists>new_text new_version.
      bump_version (str ''version = "1.2.3"'') (str ''patch'') = Inr (new_text, new_version))\<close>
proof -
  let ?m = \<open>\<lparr>g1 = str ''version = "'', g2 = str ''1'', g3 = str ''2'', g4 = str ''3'',
             g5 = str ''"''\<rparr>\<close>
  have 1: \<open>decl_positions (str ''name = "x"'') = []\<close>
    by (simp add: decl_positions_def at_bol_def bump_eval)
  have 2: \<open>re_search match_at True (str ''version = "1.2.3"'') = Some ([], ?m, [])\<close>
    by (simp add: bump_eval)
  have 3: "within_limit ?m"
    by (simp add: within_limit_def str_def max_str_digits_def)
  have 4: "fits (increment (str ''patch'') (nums ?m))"
    by (simp add: fits_def nums_def bump_eval)
  from bump_version_errors [of \<open>str ''name = "x"''\<close> "str ''patch''"] 1
  have 5: \<open>bump_version (str ''name = "x"'') (str ''patch'') = Inl (RuntimeError not_found)\<close>
    by blast
  from bump_version_errors [of \<open>str ''version = "1.2.3"''\<close> "str ''patch''"] 2 3 4
  have 6: \<open>\<exists>new_text new_version.
      bump_version (str ''version = "1.2.3"'') (str ''patch'') = Inr (new_text, new_version)\<close>
    by blast
  from 1 5 2 3 4 6 show ?thesis
    by (intro conjI)
qed

text \<open>
  Claim C1, as stated, fails: the declaration \<open>1.2.9\<dots>9\<close> with 4300 nines parses, and a
  \<open>patch\<close> bump of it returns no text: writing out the patch number plus one, which has
  4301 digits, raises \<open>ValueError\<close>.
\<close>

theorem patch_after_nines_fails:
  \<open>first_decl (str ''version = "'' @ str ''1'' @ str ''.'' @ str ''2'' @ str ''.'' @
       replicate 4300 57 @ str ''"'' @ []) =
     Some ([], str ''version = "'', (1, 2, int (decimal (replicate 4300 57))), []) \<and>
   bump_version (str ''version = "'' @ str ''1'' @ str ''.'' @ str ''2'' @ str ''.'' @
       replicate 4300 57 @ str ''"'' @ []) (str ''patch'') = Inl ValueError\<close>
proof
  have d: "digits (replicate 4300 57)"
    by (rule digits_replicate) (simp_all add: is_digit_def)
  have l: "length (replicate 4300 (57::nat)) \<le> max_str_digits"
    by (simp add: max_str_digits_def)
  have s: \<open>length (str ''1'') \<le> max_str_digits\<close> \<open>length (str ''2'') \<le> max_str_digits\<close>
    by (simp_all add: str_def max_str_digits_def)
  from first_decl_declaration [OF digits_small(1,2) d s l, of "[]"]
  show \<open>first_decl (str ''version = "'' @ str ''1'' @ str ''.'' @ str ''2'' @ str ''.'' @
       replicate 4300 57 @ str ''"'' @ []) =
     Some ([], str ''version = "'', (1, 2, int (decimal (replicate 4300 57))), [])\<close>
    by (simp only: decimal_small of_nat_1 of_nat_numeral)
  have "\<not> fits (increment (str ''patch'')
      (int (decimal (str ''1'')), int (decimal (str ''2'')), int (decimal (replicate 4300 57))))"
    by (simp add: increment_simps fits_def ndigits_after_nines max_str_digits_def)
  then show \<open>bump_version (str ''version = "'' @ str ''1'' @ str ''.'' @ str ''2'' @ str ''.'' @
       replicate 4300 57 @ str ''"'' @ []) (str ''patch'') = Inl ValueError\<close>
    using digits_small(1,2) d by (intro declaration_value_error) simp_all
qed

text \<open>
  Claim C1, amended. When the first declaration of the text reads \<open>(X, Y, Z)\<close> and the
  number that is incremented still has at most 4300 digits afterwards, \<open>bump_version\<close>
  returns a text whose first declaration, at the same place and with the same group 1,
  reads \<open>(X + 1, 0, 0)\<close> for \<open>major\<close>, \<open>(X, Y + 1, 0)\<close> for \<open>minor\<close> and \<open>(X, Y, Z + 1)\<close>
  for \<open>patch\<close>; from \<open>version = "1.2.3"\<close> it makes \<open>1.2.4\<close>, \<open>1.3.0\<close> and \<open>2.0.0\<close>.
\<close>

theorem bump_increments:
  \<open>(\<forall>text pre h X Y Z rest. first_decl text = Some (pre, h, (X, Y, Z), rest) \<longrightarrow>
      (ndigits (X + 1) \<le> max_str_digits \<longrightarrow>
         (\<exists>new_text new_version.
            bump_version text (str ''major'') = Inr (new_text, new_version) \<and>
            first_decl new_text = Some (pre, h, (X + 1, 0, 0), rest))) \<and>
      (ndigits (Y + 1) \<le> max_str_digits \<longrightarrow>
         (\<exists>new_text new_version.
            bump_version text (str ''minor'') = Inr (new_text, new_version) \<and>
            first_decl new_text = Some (pre, h, (X, Y + 1, 0), rest))) \<and>
      (ndigits (Z + 1) \<le> max_str_digits \<longrightarrow>
         (\<exists>new_text new_version.
            bump_version text (str ''patch'') = Inr (new_text, new_version) \<and>
            first_decl new_text = Some (pre, h, (X, Y, Z + 1), rest)))) \<and>
   bump_version (str ''version = "1.2.3"'') (str ''patch'') =
     Inr (str ''version = "1.2.4"'', str ''1.2.4'') \<and>
   bump_version (str ''version = "1.2.3"'') (str ''minor'') =
     Inr (str ''version = "1.3.0"'', str ''1.3.0'') \<and>
   bump_version (str ''version = "1.2.3"'') (str ''major'') =
     Inr (str ''version = "2.0.0"'', str ''2.0.0'')\<close>
proof (intro conjI allI impI)
  fix tx pre h X Y Z rest
  assume d: "first_decl tx = Some (pre, h, (X, Y, Z), rest)"
  note f = first_decl_fits [OF d]
  {
    assume "ndigits (X + 1) \<le> max_str_digits"
    from bump_first_decl [OF d fits_increment(1) [OF f this]]
    show "\<exists>new_text new_version. bump_version tx (str ''major'') = Inr (new_text, new_version) \<and>
           first_decl new_text = Some (pre, h, (X + 1, 0, 0), rest)"
      by (simp add: increment_simps)
  }
  {
    assume "ndigits (Y + 1) \<le> max_str_digits"
    from bump_first_decl [OF d fits_increment(2) [OF f this]]
    show "\<exists>new_text new_version. bump_version tx (str ''minor'') = Inr (new_text, new_version) \<and>
           first_decl new_text = Some (pre, h, (X, Y + 1, 0), rest)"
      by (simp add: increment_simps)
  }
  {
    assume "ndigits (Z + 1) \<le> max_str_digits"
    from bump_first_decl [OF d fits_increment(3) [OF f this, of "str ''patch''"]]
    show "\<exists>new_text new_version. bump_version tx (str ''patch'') = Inr (new_text, new_version) \<and>
           first_decl new_text = Some (pre, h, (X, Y, Z + 1), rest)"
      by (simp add: increment_simps)
  }
next
  show \<open>bump_version (str ''version = "1.2.3"'') (str ''patch'') =
     Inr (str ''version = "1.2.4"'', str ''1.2.4'')\<close>
    by (simp add: bump_eval)
  show \<open>bump_version (str ''version = "1.2.3"'') (str ''minor'') =
     Inr (str ''version = "1.3.0"'', str ''1.3.0'')\<close>
    by (simp add: bump_eval)
  show \<open>bump_version (str ''version = "1.2.3"'') (str ''major'') =
     Inr (str ''version = "2.0.0"'', str ''2.0.0'')\<close>
    by (simp add: bump_eval)
qed

theorem bump_increments_witness:
  \<open>first_decl (str ''# x\<newline>version  = "0.9.12" # y'') =
     Some (str ''# x\<newline>'', str ''version  = "'', (0, 9, 12), str '' # y'') \<and>
   ndigits (0 + 1) \<le> max_str_digits \<and> ndigits (9 + 1) \<le> max_str_digits \<and>
   ndigits (12 + 1) \<le> max_str_digits \<and>
   (\<exists>new_text new_version.
      bump_version (str ''# x\<newline>version  = "0.9.12" # y'') (str ''major'') =
        Inr (new_text, new_version) \<and>
      first_decl new_text = Some (str ''# x\<newline>'', str ''version  = "'', (0 + 1, 0, 0), str '' # y'')) \<and>
   (\<exists>new_text new_version.
      bump_version (str ''# x\<newline>version  = "0.9.12" # y'') (str ''minor'') =
        Inr (new_text, new_version) \<and>
      first_decl new_text = Some (str ''# x\<newline>'', str ''version  = "'', (0, 9 + 1, 0), str '' # y'')) \<and>
   (\<exists>new_text new_version.
      bump_version (str ''# x\<newline>version  = "0.9.12" # y'') (str ''patch'') =
        Inr (new_text, new_version) \<and>
      first_decl new_text = Some (str ''# x\<newline>'', str ''version  = "'', (0, 9, 12 + 1), str '' # y''))\<close>
proof -
  have 1: \<open>first_decl (str ''# x\<newline>version  = "0.9.12" # y'') =
     Some (str ''# x\<newline>'', str ''version  = "'', (0, 9, 12), str '' # y'')\<close>
    by (simp add: first_decl_def bump_eval)
  have 2: "ndigits (0 + 1) \<le> max_str_digits" "ndigits (9 + 1) \<le> max_str_digits"
    "ndigits (12 + 1) \<le> max_str_digits"
    by (simp_all add: ndigits_def dec.simps max_str_digits_def)
  from bump_increments 1 2 show ?thesis
    by blast
qed

text \<open>
  Claim C3, as stated, fails: a text with exactly one declaration, whose minor number has
  4301 digits, has no bumped version to compare: \<open>bump_version\<close> fails with \<open>ValueError\<close>.
\<close>

theorem one_declaration_bump_fails:
  \<open>length (decl_positions (str ''version = "'' @ str ''1'' @ str ''.'' @ replicate 4301 49 @
      str ''.'' @ str ''3'' @ str ''"'' @ [])) = 1 \<and>
   str ''minor'' \<in> {str ''patch'', str ''minor'', str ''major''} \<and>
   bump_version (str ''version = "'' @ str ''1'' @ str ''.'' @ replicate 4301 49 @
      str ''.'' @ str ''3'' @ str ''"'' @ []) (str ''minor'') = Inl ValueError\<close>
proof (intro conjI)
  let ?t = \<open>str ''version = "'' @ str ''1'' @ str ''.'' @ replicate 4301 49 @
      str ''.'' @ str ''3'' @ str ''"'' @ []\<close>
  have d: "digits (replicate 4301 49)"
    by (rule digits_replicate) (simp_all add: is_digit_def)
  have "NL \<notin> set ?t"
    by (simp add: str_def NL_def)
  from decl_positions_single [OF this declaration_found [OF digits_small(1) d digits_small(3)]]
  show "length (decl_positions ?t) = 1"
    by simp
  show "str ''minor'' \<in> {str ''patch'', str ''minor'', str ''major''}"
    by simp
  show "bump_version ?t (str ''minor'') = Inl ValueError"
    using digits_small(1) d digits_small(3)
    by (rule declaration_value_error) (simp add: max_str_digits_def)
qed

text \<open>
  Claim C3, amended. For a text with exactly one version declaration, whose numbers have
  at most 4300 digits each so that they parse to a version \<open>v\<close>, and \<open>part\<close> one of \<open>patch\<close>,
  \<open>minor\<close>, \<open>major\<close> such that each number of the incremented version has at most 4300
  digits, the version parsed from the text that \<open>bump_version\<close> returns is strictly
  greater than \<open>v\<close> in the lexicographic order of (major, minor, patch).
\<close>

theorem bump_strictly_greater:
  assumes "length (decl_positions text) = 1"
    and "part \<in> {str ''patch'', str ''minor'', str ''major''}"
    and "parse_version text = Some v" and "fits (increment part v)"
  shows "\<exists>new_text new_version v'.
           bump_version text part = Inr (new_text, new_version) \<and>
           parse_version new_text = Some v' \<and> ver_less v v'"
proof -
  from parse_version_SomeD [OF assms(3)] obtain pre h rest where
    d: "first_decl text = Some (pre, h, v, rest)"
    by blast
  from bump_first_decl [OF d assms(4)] obtain new_text new_version where
    b: "bump_version text part = Inr (new_text, new_version)"
    and n: "first_decl new_text = Some (pre, h, increment part v, rest)"
    by blast
  from n have "parse_version new_text = Some (increment part v)"
    by (simp add: parse_version_def)
  moreover have "ver_less v (increment part v)"
    using assms(2) by (rule ver_less_increment)
  ultimately show ?thesis
    using b by blast
qed

theorem bump_strictly_greater_witness:
  \<open>length (decl_positions (str ''version = "1.9.9"'')) = 1 \<and>
   str ''minor'' \<in> {str ''patch'', str ''minor'', str ''major''} \<and>
   parse_version (str ''version = "1.9.9"'') = Some (1, 9, 9) \<and>
   fits (increment (str ''minor'') (1, 9, 9)) \<and>
   (\<exists>new_text new_version v'.
      bump_version (str ''version = "1.9.9"'') (str ''minor'') = Inr (new_text, new_version) \<and>
      parse_version new_text = Some v' \<and> ver_less (1, 9, 9) v')\<close>
proof -
  have 1: \<open>length (decl_positions (str ''version = "1.9.9"'')) = 1\<close>
    by (simp add: decl_positions_def at_bol_def bump_eval)
  have 2: "str ''minor'' \<in> {str ''patch'', str ''minor'', str ''major''}"
    by simp
  have 3: \<open>parse_version (str ''version = "1.9.9"'') = Some (1, 9, 9)\<close>
    by (simp add: parse_version_def first_decl_def bump_eval)
  have 4: "fits (increment (str ''minor'') (1, 9, 9))"
    by (simp add: fits_def bump_eval)
  from 1 2 3 4 bump_strictly_greater [OF 1 2 3 4] show ?thesis
    by (intro conjI)
qed

text \<open>
  Claim C4, as stated, fails: a text with a declaration whose major number has 4301
  digits gets no replacement and no output text: \<open>bump_version\<close> fails with \<open>ValueError\<close>.
\<close>

theorem no_replacement_on_long_number:
  \<open>decl_positions (str ''version = "'' @ replicate 4301 49 @ str ''.'' @ str ''2'' @
      str ''.'' @ str ''3'' @ str ''"'' @ str '' # x'') \<noteq> [] \<and>
   bump_version (str ''version = "'' @ replicate 4301 49 @ str ''.'' @ str ''2'' @
      str ''.'' @ str ''3'' @ str ''"'' @ str '' # x'') (str ''major'') = Inl ValueError\<close>
proof
  have d: "digits (replicate 4301 49)"
    by (rule digits_replicate) (simp_all add: is_digit_def)
  from declaration_found [OF d digits_small(2,3), of \<open>str '' # x''\<close>]
  show \<open>decl_positions (str ''version = "'' @ replicate 4301 49 @ str ''.'' @ str ''2'' @
      str ''.'' @ str ''3'' @ str ''"'' @ str '' # x'') \<noteq> []\<close>
    by (rule decl_positions_first(1))
  show \<open>bump_version (str ''version = "'' @ replicate 4301 49 @ str ''.'' @ str ''2'' @
      str ''.'' @ str ''3'' @ str ''"'' @ str '' # x'') (str ''major'') = Inl ValueError\<close>
    using d digits_small(2,3) by (rule declaration_value_error) (simp add: max_str_digits_def)
qed

text \<open>
  Claim C4, amended. When the text has a version declaration, the numbers of the first
  one have at most 4300 digits each, so that they parse to a version \<open>v\<close>, and each number
  of the incremented version has at most 4300 digits, \<open>subn\<close> reports exactly one
  replacement, and the new text is the old one with the first match replaced by what
  \<open>repl\<close> returns: the text before the match and the text after it are kept as they are.
\<close>

theorem bump_version_frame:
  assumes "decl_positions text \<noteq> []"
    and "parse_version text = Some v" and "fits (increment part v)"
  shows "\<exists>pre m rest r new_version.
           text = pre @ g0 m @ rest \<and> length pre = hd (decl_positions text) \<and>
           match_at (g0 m @ rest) = Some (m, rest) \<and> repl part m = Inr r \<and>
           subn1 (repl part) text = Inr (pre @ r @ rest, 1) \<and>
           bump_version text part = Inr (pre @ r @ rest, new_version)"
proof -
  from parse_version_SomeD [OF assms(2)] obtain pre h rest where
    "first_decl text = Some (pre, h, v, rest)"
    by blast
  from first_decl_SomeD [OF this] obtain m where
    found: "re_search match_at True text = Some (pre, m, rest)" and v: "v = nums m"
    and lim: "within_limit m"
    by blast
  note t = re_search_text [OF found]
  have f: "fits (increment part (nums m))"
    using assms(3) by (simp only: v)
  let ?r = "g1 m @ dotted (increment part (nums m)) @ [QUOTE]"
  have "repl part m = Inr ?r"
    using t(1) lim f by (rule repl_ok)
  moreover have "length pre = hd (decl_positions text)"
    using decl_positions_first(2) [OF found] by simp
  moreover have "subn1 (repl part) text = Inr (pre @ ?r @ rest, 1)"
    using bump_found(1) [OF found lim f] by simp
  moreover have "bump_version text part =
      Inr (pre @ ?r @ rest, dotted (increment part (nums m)))"
    using bump_found(2) [OF found lim f] by simp
  ultimately show ?thesis
    using t by blast
qed

theorem bump_version_frame_witness:
  \<open>decl_positions (str ''a = 1\<newline>version = "1.2.3" # x'') \<noteq> [] \<and>
   parse_version (str ''a = 1\<newline>version = "1.2.3" # x'') = Some (1, 2, 3) \<and>
   fits (increment (str ''minor'') (1, 2, 3)) \<and>
   (\<exists>pre m rest r new_version.
      str ''a = 1\<newline>version = "1.2.3" # x'' = pre @ g0 m @ rest \<and>
      length pre = hd (decl_positions (str ''a = 1\<newline>version = "1.2.3" # x'')) \<and>
      match_at (g0 m @ rest) = Some (m, rest) \<and> repl (str ''minor'') m = Inr r \<and>
      subn1 (repl (str ''minor'')) (str ''a = 1\<newline>version = "1.2.3" # x'') =
        Inr (pre @ r @ rest, 1) \<and>
      bump_version (str ''a = 1\<newline>version = "1.2.3" # x'') (str ''minor'') =
        Inr (pre @ r @ rest, new_version))\<close>
proof -
  have 1: \<open>decl_positions (str ''a = 1\<newline>version = "1.2.3" # x'') \<noteq> []\<close>
    by (simp add: decl_positions_def at_bol_def bump_eval)
  have 2: \<open>parse_version (str ''a = 1\<newline>version = "1.2.3" # x'') = Some (1, 2, 3)\<close>
    by (simp add: parse_version_def first_decl_def bump_eval)
  have 3: "fits (increment (str ''minor'') (1, 2, 3))"
    by (simp add: fits_def bump_eval)
  from 1 2 3 bump_version_frame [OF 1 2 3] show ?thesis
    by (intro conjI)
qed

text \<open>
  Claim C6, as stated, fails: for a declaration whose minor number is 4300 nines, a
  \<open>minor\<close> bump returns no version string at all; formatting the incremented number, of
  4301 digits, fails with \<open>ValueError\<close>.
\<close>

theorem no_new_version_after_nines:
  \<open>first_decl (str ''version = "'' @ str ''1'' @ str ''.'' @ replicate 4300 57 @ str ''.'' @
       str ''3'' @ str ''"'' @ []) =
     Some ([], str ''version = "'', (1, int (decimal (replicate 4300 57)), 3), []) \<and>
   bump_version (str ''version = "'' @ str ''1'' @ str ''.'' @ replicate 4300 57 @ str ''.'' @
       str ''3'' @ str ''"'' @ []) (str ''minor'') = Inl ValueError\<close>
proof
  have d: "digits (replicate 4300 57)"
    by (rule digits_replicate) (simp_all add: is_digit_def)
  have l: "length (replicate 4300 (57::nat)) \<le> max_str_digits"
    by (simp add: max_str_digits_def)
  have s: \<open>length (str ''1'') \<le> max_str_digits\<close> \<open>length (str ''3'') \<le> max_str_digits\<close>
    by (simp_all add: str_def max_str_digits_def)
  from first_decl_declaration [OF digits_small(1) d digits_small(3) s(1) l s(2), of "[]"]
  show \<open>first_decl (str ''version = "'' @ str ''1'' @ str ''.'' @ replicate 4300 57 @ str ''.'' @
       str ''3'' @ str ''"'' @ []) =
     Some ([], str ''version = "'', (1, int (decimal (replicate 4300 57)), 3), [])\<close>
    by (simp only: decimal_small of_nat_1 of_nat_numeral)
  have "\<not> fits (increment (str ''minor'')
      (int (decimal (str ''1'')), int (decimal (replicate 4300 57)), int (decimal (str ''3''))))"
    by (simp add: increment_simps fits_def ndigits_after_nines max_str_digits_def)
  then show \<open>bump_version (str ''version = "'' @ str ''1'' @ str ''.'' @ replicate 4300 57 @
       str ''.'' @ str ''3'' @ str ''"'' @ []) (str ''minor'') = Inl ValueError\<close>
    using digits_small(1) d digits_small(3) by (intro declaration_value_error) simp_all
qed

text \<open>
  Claim C6, amended. When the text has a version declaration whose numbers have at most
  4300 digits each, so that they parse to a version \<open>v\<close>, and each number of the
  incremented version has at most 4300 digits, the version string that \<open>bump_version\<close>
  returns, read back from the new text by \<open>ver_search\<close>, is the incremented version
  written as \<open>MAJOR.MINOR.PATCH\<close>: the second search always finds a declaration (the
  fallback \<open>unknown\<close> is never returned) and agrees with the arithmetic.
\<close>

theorem new_version_agrees:
  assumes "first_decl text = Some (pre, h, v, rest)" and "fits (increment part v)"
  shows "\<exists>new_text pre' rest'.
           bump_version text part = Inr (new_text, dotted (increment part v)) \<and>
           re_search ver_at True new_text = Some (pre', dotted (increment part v), rest')"
proof -
  from first_decl_SomeD [OF assms(1)] obtain m where
    found: "re_search match_at True text = Some (pre, m, rest)" and v: "v = nums m"
    and lim: "within_limit m"
    by blast
  have f: "fits (increment part (nums m))"
    using assms(2) by (simp only: v)
  from bump_found(2) [OF found lim f] ver_search_found [OF found, of part] show ?thesis
    unfolding v by blast
qed

theorem new_version_agrees_witness:
  \<open>first_decl (str ''version = "1.9.3"'') = Some ([], str ''version = "'', (1, 9, 3), []) \<and>
   fits (increment (str ''minor'') (1, 9, 3)) \<and>
   (\<exists>new_text pre' rest'.
      bump_version (str ''version = "1.9.3"'') (str ''minor'') =
        Inr (new_text, dotted (increment (str ''minor'') (1, 9, 3))) \<and>
      re_search ver_at True new_text =
        Some (pre', dotted (increment (str ''minor'') (1, 9, 3)), rest')) \<and>
   dotted (increment (str ''minor'') (1, 9, 3)) = str ''1.10.0''\<close>
proof -
  have 1: \<open>first_decl (str ''version = "1.9.3"'') = Some ([], str ''version = "'', (1, 9, 3), [])\<close>
    by (simp add: first_decl_def bump_eval)
  have 2: \<open>dotted (increment (str ''minor'') (1, 9, 3)) = str ''1.10.0''\<close>
    by (simp add: dotted_def bump_eval)
  have 3: "fits (increment (str ''minor'') (1, 9, 3))"
    by (simp add: fits_def bump_eval)
  from 1 3 new_version_agrees [OF 1 3] 2 show ?thesis
    by (intro conjI)
qed

text \<open>
  Claim C8, as stated, fails: with the part \<open>build\<close>, neither \<open>major\<close> nor \<open>minor\<close>, and a
  declaration whose patch number is 4300 nines, no number is incremented:
  \<open>bump_version\<close> fails with \<open>ValueError\<close>.
\<close>

theorem other_part_after_nines_fails:
  \<open>str ''build'' \<noteq> str ''major'' \<and> str ''build'' \<noteq> str ''minor'' \<and>
   first_decl (str ''version = "'' @ str ''3'' @ str ''.'' @ str ''1'' @ str ''.'' @
       replicate 4300 57 @ str ''"'' @ []) =
     Some ([], str ''version = "'', (3, 1, int (decimal (replicate 4300 57))), []) \<and>
   bump_version (str ''version = "'' @ str ''3'' @ str ''.'' @ str ''1'' @ str ''.'' @
       replicate 4300 57 @ str ''"'' @ []) (str ''build'') = Inl ValueError\<close>
proof (intro conjI)
  show p: "str ''build'' \<noteq> str ''major''" "str ''build'' \<noteq> str ''minor''"
    by (simp_all add: str_def)
  have d: "digits (replicate 4300 57)"
    by (rule digits_replicate) (simp_all add: is_digit_def)
  have l: "length (replicate 4300 (57::nat)) \<le> max_str_digits"
    by (simp add: max_str_digits_def)
  have s: \<open>length (str ''3'') \<le> max_str_digits\<close> \<open>length (str ''1'') \<le> max_str_digits\<close>
    by (simp_all add: str_def max_str_digits_def)
  from first_decl_declaration [OF digits_small(3,1) d s l, of "[]"]
  show \<open>first_decl (str ''version = "'' @ str ''3'' @ str ''.'' @ str ''1'' @ str ''.'' @
       replicate 4300 57 @ str ''"'' @ []) =
     Some ([], str ''version = "'', (3, 1, int (decimal (replicate 4300 57))), [])\<close>
    by (simp only: decimal_small of_nat_1 of_nat_numeral)
  have "\<not> fits (increment (str ''build'')
      (int (decimal (str ''3'')), int (decimal (str ''1'')), int (decimal (replicate 4300 57))))"
    using p by (simp add: increment_simps fits_def ndigits_after_nines max_str_digits_def)
  then show \<open>bump_version (str ''version = "'' @ str ''3'' @ str ''.'' @ str ''1'' @ str ''.'' @
       replicate 4300 57 @ str ''"'' @ []) (str ''build'') = Inl ValueError\<close>
    using digits_small(3,1) d by (intro declaration_value_error) simp_all
qed

text \<open>
  Claim C8, amended. For a \<open>part\<close> that is neither \<open>major\<close> nor \<open>minor\<close>, whatever string it is,
  \<open>bump_version\<close> does what it does for \<open>patch\<close>, failures included; and when the first
  declaration reads \<open>(X, Y, Z)\<close>, its numbers having at most 4300 digits each, and \<open>Z + 1\<close>
  has at most 4300 digits, the first declaration keeps its major and minor numbers and
  its patch number grows by one.
\<close>

theorem other_part_is_patch:
  assumes "part \<noteq> str ''major''" and "part \<noteq> str ''minor''"
  shows "bump_version text part = bump_version text (str ''patch'') \<and>
         (\<forall>pre h X Y Z rest. first_decl text = Some (pre, h, (X, Y, Z), rest) \<longrightarrow>
            ndigits (Z + 1) \<le> max_str_digits \<longrightarrow>
            (\<exists>new_text. bump_version text part = Inr (new_text, dotted (X, Y, Z + 1)) \<and>
               first_decl new_text = Some (pre, h, (X, Y, Z + 1), rest)))"
proof
  have i: "increment part v = increment (str ''patch'') v" for v
    using assms by (cases v) (simp add: increment_simps)
  have "repl part = repl (str ''patch'')"
    by (rule ext) (unfold repl_def i, rule refl)
  then show "bump_version text part = bump_version text (str ''patch'')"
    by (simp add: bump_version_def)
  show "\<forall>pre h X Y Z rest. first_decl text = Some (pre, h, (X, Y, Z), rest) \<longrightarrow>
          ndigits (Z + 1) \<le> max_str_digits \<longrightarrow>
          (\<exists>new_text. bump_version text part = Inr (new_text, dotted (X, Y, Z + 1)) \<and>
             first_decl new_text = Some (pre, h, (X, Y, Z + 1), rest))"
  proof (intro allI impI)
    fix pre h X Y Z rest
    assume d: "first_decl text = Some (pre, h, (X, Y, Z), rest)"
      and z: "ndigits (Z + 1) \<le> max_str_digits"
    have inc: "increment part (X, Y, Z) = (X, Y, Z + 1)"
      using assms by (simp add: increment_simps)
    from first_decl_SomeD [OF d] obtain m where
      found: "re_search match_at True text = Some (pre, m, rest)" and v: "(X, Y, Z) = nums m"
      and lim: "within_limit m"
      by blast
    have "fits (increment part (X, Y, Z))"
      using first_decl_fits [OF d] z assms by (rule fits_increment(3))
    then have f: "fits (increment part (nums m))"
      by (simp only: v)
    from bump_found(2) [OF found lim f]
    have "\<exists>new_text. bump_version text part = Inr (new_text, dotted (X, Y, Z + 1))"
      by (simp add: v [symmetric] inc)
    moreover from bump_first_decl [OF d \<open>fits (increment part (X, Y, Z))\<close>]
    obtain nt nv where "bump_version text part = Inr (nt, nv)"
      "first_decl nt = Some (pre, h, (X, Y, Z + 1), rest)"
      unfolding inc by blast
    ultimately show "\<exists>new_text. bump_version text part = Inr (new_text, dotted (X, Y, Z + 1)) \<and>
        first_decl new_text = Some (pre, h, (X, Y, Z + 1), rest)"
      by auto
  qed
qed

theorem other_part_is_patch_witness:
  \<open>str ''build'' \<noteq> str ''major'' \<and> str ''build'' \<noteq> str ''minor'' \<and>
   bump_version (str ''version = "1.2.3"'') (str ''build'') =
     bump_version (str ''version = "1.2.3"'') (str ''patch'') \<and>
   first_decl (str ''version = "1.2.3"'') = Some ([], str ''version = "'', (1, 2, 3), []) \<and>
   ndigits (3 + 1) \<le> max_str_digits \<and>
   (\<exists>new_text. bump_version (str ''version = "1.2.3"'') (str ''build'') =
        Inr (new_text, dotted (1, 2, 3 + 1)) \<and>
      first_decl new_text = Some ([], str ''version = "'', (1, 2, 3 + 1), []))\<close>
proof -
  have 1: "str ''build'' \<noteq> str ''major''" and 2: "str ''build'' \<noteq> str ''minor''"
    by (simp_all add: str_def)
  have 3: \<open>first_decl (str ''version = "1.2.3"'') = Some ([], str ''version = "'', (1, 2, 3), [])\<close>
    by (simp add: first_decl_def bump_eval)
  have 4: "ndigits (3 + 1) \<le> max_str_digits"
    by (simp add: bump_eval)
  from other_part_is_patch [OF 1 2, of \<open>str ''version = "1.2.3"''\<close>] 1 2 3 4 show ?thesis
    by blast
qed

text \<open>
  Claim C5, as stated, fails: in a text with two declarations, the first with a patch
  number of 4301 digits, nothing is modified and nothing is returned: \<open>bump_version\<close>
  fails with \<open>ValueError\<close>.
\<close>

theorem two_declarations_bump_fails:
  \<open>2 \<le> length (decl_positions (str ''version = "'' @ str ''1'' @ str ''.'' @ str ''2'' @
      str ''.'' @ replicate 4301 49 @ str ''"'' @ NL # str ''version = "1.2.3"'')) \<and>
   bump_version (str ''version = "'' @ str ''1'' @ str ''.'' @ str ''2'' @
      str ''.'' @ replicate 4301 49 @ str ''"'' @ NL # str ''version = "1.2.3"'') (str ''major'') =
     Inl ValueError\<close>
proof
  have d: "digits (replicate 4301 49)"
    by (rule digits_replicate) (simp_all add: is_digit_def)
  have m: \<open>match_at (str ''version = "1.2.3"'') \<noteq> None\<close>
    by (simp add: bump_eval)
  from declaration_found [OF digits_small(1,2) d] m
  show \<open>2 \<le> length (decl_positions (str ''version = "'' @ str ''1'' @ str ''.'' @ str ''2'' @
      str ''.'' @ replicate 4301 49 @ str ''"'' @ NL # str ''version = "1.2.3"''))\<close>
    by (rule two_declarations)
  show \<open>bump_version (str ''version = "'' @ str ''1'' @ str ''.'' @ str ''2'' @
      str ''.'' @ replicate 4301 49 @ str ''"'' @ NL # str ''version = "1.2.3"'') (str ''major'') =
     Inl ValueError\<close>
    using digits_small(1,2) d by (rule declaration_value_error) (simp add: max_str_digits_def)
qed

text \<open>
  Claim C5, amended. When two or more positions of the text are version declarations,
  the numbers of the first one have at most 4300 digits each, so that they parse to a
  version \<open>v\<close>, and each number of the incremented version has at most 4300 digits,
  \<open>bump_version\<close> succeeds and replaces the first one only: every later declaration
  lies after the first match, is again a declaration of the new text (moved by the change
  of length of the first), and the text from there on is the same as before.
\<close>

theorem later_declarations_unchanged:
  assumes "2 \<le> length (decl_positions text)"
    and "parse_version text = Some v" and "fits (increment part v)"
  shows "\<exists>pre m rest r new_version.
           text = pre @ g0 m @ rest \<and> hd (decl_positions text) = length pre \<and>
           repl part m = Inr r \<and>
           bump_version text part = Inr (pre @ r @ rest, new_version) \<and>
           (\<forall>i \<in> set (decl_positions text). i \<noteq> length pre \<longrightarrow>
              (\<exists>k. i = length pre + length (g0 m) + k \<and>
                 length pre + length r + k \<in> set (decl_positions (pre @ r @ rest)) \<and>
                 drop (length pre + length r + k) (pre @ r @ rest) = drop i text))"
proof -
  from parse_version_SomeD [OF assms(2)] obtain pre h rest where
    "first_decl text = Some (pre, h, v, rest)"
    by blast
  from first_decl_SomeD [OF this] obtain m where
    found: "re_search match_at True text = Some (pre, m, rest)" and v: "v = nums m"
    and lim: "within_limit m"
    by blast
  have f: "fits (increment part (nums m))"
    using assms(3) by (simp only: v)
  note t = re_search_text [OF found]
  let ?r = "g1 m @ dotted (increment part (nums m)) @ [QUOTE]"
  have r: "repl part m = Inr ?r"
    using t(1) lim f by (rule repl_ok)
  have b: "bump_version text part = Inr (pre @ ?r @ rest, dotted (increment part (nums m)))"
    using bump_found(2) [OF found lim f] by simp
  have later: "\<exists>k. i = length pre + length (g0 m) + k \<and>
      length pre + length ?r + k \<in> set (decl_positions (pre @ ?r @ rest)) \<and>
      drop (length pre + length ?r + k) (pre @ ?r @ rest) = drop i text"
    if "i \<in> set (decl_positions text)" "i \<noteq> length pre" for i
    using later_position_kept [of pre "g0 m" rest m i ?r] found that
    unfolding t(2) [symmetric] by blast
  from t(2) decl_positions_first(2) [OF found] r b later show ?thesis
    by blast
qed

theorem later_declarations_unchanged_witness:
  \<open>2 \<le> length (decl_positions (str ''version = "1.2.3"\<newline>version = "9.9.9"'')) \<and>
   parse_version (str ''version = "1.2.3"\<newline>version = "9.9.9"'') = Some (1, 2, 3) \<and>
   fits (increment (str ''major'') (1, 2, 3)) \<and>
   (\<exists>pre m rest r new_version.
      str ''version = "1.2.3"\<newline>version = "9.9.9"'' = pre @ g0 m @ rest \<and>
      hd (decl_positions (str ''version = "1.2.3"\<newline>version = "9.9.9"'')) = length pre \<and>
      repl (str ''major'') m = Inr r \<and>
      bump_version (str ''version = "1.2.3"\<newline>version = "9.9.9"'') (str ''major'') =
        Inr (pre @ r @ rest, new_version) \<and>
      (\<forall>i \<in> set (decl_positions (str ''version = "1.2.3"\<newline>version = "9.9.9"'')).
         i \<noteq> length pre \<longrightarrow>
         (\<exists>k. i = length pre + length (g0 m) + k \<and>
            length pre + length r + k \<in> set (decl_positions (pre @ r @ rest)) \<and>
            drop (length pre + length r + k) (pre @ r @ rest) =
              drop i (str ''version = "1.2.3"\<newline>version = "9.9.9"'')))) \<and>
   decl_positions (str ''version = "1.2.3"\<newline>version = "9.9.9"'') = [0, 18] \<and>
   bump_version (str ''version = "1.2.3"\<newline>version = "9.9.9"'') (str ''major'') =
     Inr (str ''version = "2.0.0"\<newline>version = "9.9.9"'', str ''2.0.0'')\<close>
proof -
  have 1: \<open>decl_positions (str ''version = "1.2.3"\<newline>version = "9.9.9"'') = [0, 18]\<close>
    by (simp add: decl_positions_def at_bol_def bump_eval)
  then have 2: \<open>2 \<le> length (decl_positions (str ''version = "1.2.3"\<newline>version = "9.9.9"''))\<close>
    by simp
  have 3: \<open>bump_version (str ''version = "1.2.3"\<newline>version = "9.9.9"'') (str ''major'') =
     Inr (str ''version = "2.0.0"\<newline>version = "9.9.9"'', str ''2.0.0'')\<close>
    by (simp add: bump_eval)
  have 4: \<open>parse_version (str ''version = "1.2.3"\<newline>version = "9.9.9"'') = Some (1, 2, 3)\<close>
    by (simp add: parse_version_def first_decl_def bump_eval)
  have 5: "fits (increment (str ''major'') (1, 2, 3))"
    by (simp add: fits_def bump_eval)
  from 2 4 5 later_declarations_unchanged [OF 2 4 5] 1 3 show ?thesis
    by (intro conjI)
qed




end
